theory Spec2Isabelle
  imports Main "HOL-Library.Multiset"
begin

section \<open>Data model\<close>

text \<open>
  The scanner of \<^verbatim>\<open>workspace-scanner.ts\<close> keeps two indexes of translation-marker
  occurrences: one keyed by document, one keyed by translation identifier. The records
  below are the values of those indexes.
\<close>

datatype occ_state = Success | Warning | Error

text \<open>
  Modelled from the spec: the type \<^verbatim>\<open>WalkerResult\<close> is declared in \<^verbatim>\<open>walker.ts\<close>, which is
  not among the sources. The fields are those of the spec's Occurrence: \<^verbatim>\<open>id\<close>, the
  optional \<^verbatim>\<open>value\<close>, \<^verbatim>\<open>state\<close>, the optional \<^verbatim>\<open>error\<close> and a location. An optional
  field is an \<open>option\<close>: \<open>None\<close> is JavaScript's \<^verbatim>\<open>undefined\<close>.
\<close>

record WalkerResult =
  w_id :: string
  w_value :: "string option"
  w_state :: occ_state
  w_error :: "string option"
  w_location :: nat

text \<open>
  A \<^verbatim>\<open>Uri\<close> of the editor API, as far as the scanner reads it: its \<^verbatim>\<open>path\<close> and the
  result of \<^verbatim>\<open>toString()\<close>.
\<close>

record Uri =
  uri_path :: string
  uri_toString :: string

text \<open>\<^verbatim>\<open>WalkerByIdResult = WalkerResult & { file: Uri }\<close>\<close>

record WalkerByIdResult = WalkerResult +
  w_file :: Uri

section \<open>Normalisation of values: \<^verbatim>\<open>strippedString\<close>\<close>

text \<open>
  \<^verbatim>\<open>strippedString\<close> is three global regular-expression replacements. The regular
  expressions it uses are sequences of character classes, each taken once or one or more
  times (\<^verbatim>\<open>+\<close>, greedy). \<open>rx_match\<close> is the backtracking matcher anchored at the start of
  the string: it returns the length of the match. A greedy \<^verbatim>\<open>+\<close> first tries to take one
  more character and gives it back when the rest of the expression fails. A string is a
  list of 8-bit characters; the characters that the three expressions name are ASCII, and
  the flag \<^verbatim>\<open>i\<close> changes nothing for them.
\<close>

datatype quant = One | OneOrMore

type_synonym atom = "(char \<Rightarrow> bool) \<times> quant"

fun rx_match :: "atom list \<Rightarrow> string \<Rightarrow> nat option" where
  "rx_match [] s = Some 0"
| "rx_match ((p, q) # r) [] = None"
| "rx_match ((p, One) # r) (c # cs) =
     (if p c then map_option Suc (rx_match r cs) else None)"
| "rx_match ((p, OneOrMore) # r) (c # cs) =
     (if p c then
        (case rx_match ((p, OneOrMore) # r) cs of
           Some n \<Rightarrow> Some (Suc n)
         | None \<Rightarrow> map_option Suc (rx_match r cs))
      else None)"

text \<open>
  \<^verbatim>\<open>str.replace(re, rep)\<close> with the \<^verbatim>\<open>g\<close> flag: scan from the left; where the expression
  matches, emit the replacement and go on after the match; elsewhere copy the character.
  (After an empty match JavaScript copies one character and goes on.)
\<close>

fun replace_g :: "atom list \<Rightarrow> string \<Rightarrow> string \<Rightarrow> string" where
  "replace_g re rep [] = (case rx_match re [] of Some n \<Rightarrow> rep | None \<Rightarrow> [])"
| "replace_g re rep (c # cs) =
     (case rx_match re (c # cs) of
        None \<Rightarrow> c # replace_g re rep cs
      | Some 0 \<Rightarrow> rep @ c # replace_g re rep cs
      | Some (Suc n) \<Rightarrow> rep @ replace_g re rep (drop n cs))"

definition LF :: char where "LF = CHR 0x0A"
definition CR :: char where "CR = CHR 0x0D"

text \<open>\<^verbatim>\<open>/[\n\r]/gi\<close>\<close>
definition re_newline :: "atom list" where
  "re_newline = [(\<lambda>c. c = LF \<or> c = CR, One)]"

text \<open>\<^verbatim>\<open>/{{[^}]+}}/gi\<close>\<close>
definition re_interpolation :: "atom list" where
  "re_interpolation =
     [(\<lambda>c. c = CHR ''{'', One), (\<lambda>c. c = CHR ''{'', One),
      (\<lambda>c. c \<noteq> CHR ''}'', OneOrMore),
      (\<lambda>c. c = CHR ''}'', One), (\<lambda>c. c = CHR ''}'', One)]"

text \<open>\<^verbatim>\<open>/ +/g\<close>\<close>
definition re_spaces :: "atom list" where
  "re_spaces = [(\<lambda>c. c = CHR '' '', OneOrMore)]"

text \<open>
  The argument is typed \<^verbatim>\<open>string\<close>, but the caller passes \<^verbatim>\<open>values[0]\<close>, which is
  \<^verbatim>\<open>undefined\<close> for an empty array: \<^verbatim>\<open>!str\<close> holds for \<^verbatim>\<open>undefined\<close> and for the empty
  string, and both are returned as they are.
\<close>

definition strippedString :: "string option \<Rightarrow> string option" where
  "strippedString str =
     (case str of
        None \<Rightarrow> None
      | Some s \<Rightarrow>
          if s = [] then Some s
          else Some (replace_g re_spaces '' ''
                      (replace_g re_interpolation ''{}''
                        (replace_g re_newline [] s))))"

subsection \<open>The normalisation in the words of the specification\<close>

text \<open>(a) deleting all newline characters (line feed and carriage return)\<close>

definition delete_newlines :: "string \<Rightarrow> string" where
  "delete_newlines s = filter (\<lambda>c. c \<noteq> LF \<and> c \<noteq> CR) s"

text \<open>
  (b) collapsing every interpolation placeholder, a substring delimited by double braces,
  to \<^verbatim>\<open>{}\<close>: the text from an opening double brace to the next closing double brace.
  \<open>after_close s\<close> is the text after the first closing double brace of \<open>s\<close>, and
  \<open>delimited_at s\<close> the text after the delimited substring that \<open>s\<close> starts with, if it
  starts with one.
\<close>

fun after_close :: "string \<Rightarrow> string option" where
  "after_close (c # d # cs) =
     (if c = CHR ''}'' \<and> d = CHR ''}'' then Some cs else after_close (d # cs))"
| "after_close cs = None"

definition delimited_at :: "string \<Rightarrow> string option" where
  "delimited_at s =
     (case s of
        a # b # t \<Rightarrow> if a = CHR ''{'' \<and> b = CHR ''{'' then after_close t else None
      | _ \<Rightarrow> None)"

function collapse_delimited :: "string \<Rightarrow> string" where
  "collapse_delimited [] = []"
| "collapse_delimited (c # cs) =
     (case delimited_at (c # cs) of
        Some rest \<Rightarrow> ''{}'' @ collapse_delimited rest
      | None \<Rightarrow> c # collapse_delimited cs)"
  by pat_completeness auto
termination
proof (relation "measure length")
  fix c :: char and cs rest :: string
  assume "delimited_at (c # cs) = Some rest"
  then obtain t where "cs = CHR ''{'' # t" and "after_close t = Some rest"
    by (auto simp: delimited_at_def split: list.splits if_splits)
  moreover have "after_close t = Some r \<Longrightarrow> length r \<le> length t" for t r
    by (induction t rule: after_close.induct) (auto split: if_splits)
  ultimately have "length rest \<le> length cs"
    by fastforce
  then show "(rest, c # cs) \<in> measure length" by simp
qed simp_all

text \<open>(c) collapsing every run of spaces to one space\<close>

fun collapse_spaces :: "string \<Rightarrow> string" where
  "collapse_spaces [] = []"
| "collapse_spaces [c] = [c]"
| "collapse_spaces (c # d # cs) =
     (if c = CHR '' '' \<and> d = CHR '' '' then collapse_spaces (d # cs)
      else c # collapse_spaces (d # cs))"

definition normalize_worded :: "string \<Rightarrow> string" where
  "normalize_worded s = collapse_spaces (collapse_delimited (delete_newlines s))"

subsection \<open>The normalisation with the placeholders that the expression matches\<close>

text \<open>
  The placeholders that are collapsed are narrower than the specification's: an opening
  double brace, a payload of at least one character none of which is a closing brace, and
  a closing double brace. \<open>placeholder_at s\<close> is the text after such a placeholder that
  \<open>s\<close> starts with, if it starts with one.
\<close>

definition placeholder_at :: "string \<Rightarrow> string option" where
  "placeholder_at s =
     (case s of
        a # b # t \<Rightarrow>
          if a = CHR ''{'' \<and> b = CHR ''{'' then
            (let payload = takeWhile (\<lambda>c. c \<noteq> CHR ''}'') t;
                 after = dropWhile (\<lambda>c. c \<noteq> CHR ''}'') t
             in if payload \<noteq> [] \<and> take 2 after = ''}}'' then Some (drop 2 after) else None)
          else None
      | _ \<Rightarrow> None)"

function collapse_placeholders :: "string \<Rightarrow> string" where
  "collapse_placeholders [] = []"
| "collapse_placeholders (c # cs) =
     (case placeholder_at (c # cs) of
        Some rest \<Rightarrow> ''{}'' @ collapse_placeholders rest
      | None \<Rightarrow> c # collapse_placeholders cs)"
  by pat_completeness auto
termination
proof (relation "measure length")
  fix c :: char and cs rest :: string
  assume "placeholder_at (c # cs) = Some rest"
  then obtain t where "cs = CHR ''{'' # t"
    and "rest = drop 2 (dropWhile (\<lambda>c. c \<noteq> CHR ''}'') t)"
    by (auto simp: placeholder_at_def Let_def split: list.splits if_splits)
  moreover have "length (dropWhile (\<lambda>c. c \<noteq> CHR ''}'') t) \<le> length t"
    by (rule length_dropWhile_le)
  ultimately have "length rest \<le> length cs"
    by simp
  then show "(rest, c # cs) \<in> measure length" by simp
qed simp_all

definition normalize_matched :: "string \<Rightarrow> string" where
  "normalize_matched s = collapse_spaces (collapse_placeholders (delete_newlines s))"

section \<open>The validated view\<close>

text \<open>\<^verbatim>\<open>value.indexOf('<')\<close> for a one-character needle: the first index, or -1.\<close>

fun indexOf :: "string \<Rightarrow> char \<Rightarrow> int" where
  "indexOf [] c = - 1"
| "indexOf (x # xs) c =
     (if x = c then 0 else (let i = indexOf xs c in if i = - 1 then - 1 else i + 1))"

text \<open>\<^verbatim>\<open>Boolean(v)\<close> for \<^verbatim>\<open>v: string | undefined\<close>\<close>

definition truthy :: "string option \<Rightarrow> bool" where
  "truthy v = (case v of None \<Rightarrow> False | Some s \<Rightarrow> s \<noteq> [])"

text \<open>\<^verbatim>\<open>resultsCopy.map(result => result.value).filter(Boolean)\<close>\<close>

definition bucket_values :: "WalkerByIdResult list \<Rightarrow> string option list" where
  "bucket_values results = filter truthy (map w_value results)"

text \<open>\<^verbatim>\<open>values[0]\<close>: \<^verbatim>\<open>undefined\<close> when the array is empty\<close>

definition first_value :: "string option list \<Rightarrow> string option" where
  "first_value vs = (case vs of [] \<Rightarrow> None | v # _ \<Rightarrow> v)"

definition mismatch_message :: string where
  "mismatch_message = ''There are other items registered with this ID whose value do not match!''"

definition html_message :: string where
  "html_message = ''This translation contains HTML tag. This is not recommended!''"

text \<open>The condition of the first \<^verbatim>\<open>if\<close> (source line 40).\<close>

definition values_mismatch :: "WalkerByIdResult list \<Rightarrow> bool" where
  "values_mismatch results =
     (let vs = bucket_values results;
          stripped0 = strippedString (first_value vs)
      in 1 < length vs \<and> list_ex (\<lambda>v. strippedString v \<noteq> stripped0) vs)"

text \<open>The consistency step (source lines 38 to 44).\<close>

definition mark_mismatch :: "WalkerByIdResult list \<Rightarrow> WalkerByIdResult list" where
  "mark_mismatch results =
     (if values_mismatch results
      then map (\<lambda>r. r\<lparr>w_state := Error, w_error := Some mismatch_message\<rparr>) results
      else results)"

text \<open>The body of the second loop (source lines 46 to 53).\<close>

definition check_html :: "WalkerByIdResult \<Rightarrow> WalkerByIdResult" where
  "check_html result =
     (if w_state result \<noteq> Success then result
      else (case w_value result of
              None \<Rightarrow> result
            | Some v \<Rightarrow>
                if v \<noteq> [] \<and> indexOf v (CHR ''<'') \<noteq> - 1
                then result\<lparr>w_state := Warning, w_error := Some html_message\<rparr>
                else result))"

definition validate_bucket :: "WalkerByIdResult list \<Rightarrow> WalkerByIdResult list" where
  "validate_bucket results = map check_html (mark_mismatch results)"

text \<open>
  \<^verbatim>\<open>validatedResultsById$\<close>: every bucket of the by-identifier view is replaced, in a copy
  of the map, by its validated copy.
\<close>

definition validatedResultsById ::
  "(string \<rightharpoonup> WalkerByIdResult list) \<Rightarrow> (string \<rightharpoonup> WalkerByIdResult list)" where
  "validatedResultsById res = (\<lambda>key. map_option validate_bucket (res key))"

section \<open>The scanner\<close>

text \<open>
  The published views are JavaScript \<^verbatim>\<open>Map\<close>s. The by-file view maps a document (the string
  of its URI) to the array of its occurrences; these arrays are never written after they
  are stored, so they are values here. The by-identifier view maps an identifier to a
  bucket array that \<^verbatim>\<open>onDocumentSave\<close> changes in place with \<^verbatim>\<open>splice\<close> and \<^verbatim>\<open>push\<close>, and
  \<^verbatim>\<open>new Map(old)\<close> copies the references only: a bucket is therefore an address into a
  store of arrays, and a view is read through the store.
\<close>

type_synonym addr = nat
type_synonym file_view = "string \<rightharpoonup> WalkerResult list"
type_synonym id_view = "string \<rightharpoonup> addr"
type_synonym store = "addr \<Rightarrow> WalkerByIdResult list"

text \<open>The contents of a by-identifier view, read through the store.\<close>

definition snapshot :: "store \<Rightarrow> id_view \<Rightarrow> (string \<rightharpoonup> WalkerByIdResult list)" where
  "snapshot h m = (\<lambda>key. map_option h (m key))"

datatype engine_state = Uninitialized | Initializing | Initialized

datatype console_line = Log string | Err string

record TextDocument =
  doc_uri :: Uri
  doc_text :: string

text \<open>
  A timer started by \<^verbatim>\<open>setInterval\<close>: its identifier, the time of its next callback in
  milliseconds, and the document its callback has captured.
\<close>

record interval_timer =
  t_id :: nat
  t_due :: nat
  t_doc :: TextDocument

text \<open>
  The fields of \<^verbatim>\<open>WorkspaceScanner\<close>. \<open>resultsByFile\<close> and \<open>resultsById\<close> are the private
  fields that the constructor's subscriptions set to the latest published view
  (\<open>None\<close>: \<^verbatim>\<open>undefined\<close>, nothing published yet). \<open>arrays\<close> and \<open>next_addr\<close> are the store of
  bucket arrays and its next free address. \<open>registered\<close> says whether \<^verbatim>\<open>registerEvents\<close> has
  subscribed to the editor's save notifications; \<open>intervals\<close> are the running
  \<^verbatim>\<open>setInterval\<close> timers of the save handler, \<open>now\<close> is the clock in milliseconds, and
  \<open>delivered\<close> records the documents emitted on \<^verbatim>\<open>savedDocumentSubject\<close>, in order.
  \<open>scan_pending\<close> says that \<^verbatim>\<open>initialize\<close> has started a scan whose promise has not settled.
\<close>

record engine =
  e_state :: engine_state
  resultsByFile :: "file_view option"
  resultsById :: "id_view option"
  arrays :: store
  next_addr :: addr
  console :: "console_line list"
  registered :: bool
  intervals :: "interval_timer list"
  next_interval :: nat
  now :: nat
  delivered :: "TextDocument list"
  scan_pending :: bool

text \<open>\<^verbatim>\<open>new WorkspaceScanner()\<close>\<close>

definition new_engine :: engine where
  "new_engine =
     \<lparr>e_state = Uninitialized, resultsByFile = None, resultsById = None,
      arrays = (\<lambda>_. []), next_addr = 0, console = [], registered = False,
      intervals = [], next_interval = 0, now = 0, delivered = [], scan_pending = False\<rparr>"

text \<open>\<^verbatim>\<open>{ ...res, file: uri }\<close>\<close>

definition with_file :: "WalkerResult \<Rightarrow> Uri \<Rightarrow> WalkerByIdResult" where
  "with_file res uri =
     \<lparr>w_id = w_id res, w_value = w_value res, w_state = w_state res, w_error = w_error res,
      w_location = w_location res, w_file = uri\<rparr>"

text \<open>
  \<^verbatim>\<open>getI18nResultsForFile\<close>. The parser and the \<^verbatim>\<open>Walker\<close> are external: \<open>walker\<close> stands
  for \<^verbatim>\<open>text => new Walker(parse(text)).geti18nAttributes()\<close> and is a parameter of every
  function that extracts.
\<close>

definition getI18nResultsForFile ::
  "(string \<Rightarrow> WalkerResult list) \<Rightarrow> TextDocument \<Rightarrow> WalkerResult list" where
  "getI18nResultsForFile walker document =
     (if doc_text document = [] then [] else walker (doc_text document))"

text \<open>\<^verbatim>\<open>path.endsWith(suffix)\<close>\<close>

definition endsWith :: "string \<Rightarrow> string \<Rightarrow> bool" where
  "endsWith s suffix =
     (length suffix \<le> length s \<and> drop (length s - length suffix) s = suffix)"

text \<open>\<^verbatim>\<open>entry.findIndex(p)\<close>: the first index, \<open>None\<close> for -1.\<close>

fun findIndex :: "('a \<Rightarrow> bool) \<Rightarrow> 'a list \<Rightarrow> nat option" where
  "findIndex p [] = None"
| "findIndex p (x # xs) = (if p x then Some 0 else map_option Suc (findIndex p xs))"

text \<open>\<^verbatim>\<open>entry.splice(i, 1)\<close>\<close>

definition splice1 :: "nat \<Rightarrow> 'a list \<Rightarrow> 'a list" where
  "splice1 i xs = take i xs @ drop (Suc i) xs"

text \<open>
  The body of the loop that adds the records of a document to the by-identifier map
  (source lines 106 to 114 in \<^verbatim>\<open>onDocumentSave\<close>, the same code at lines 169 to 177 in
  \<^verbatim>\<open>initialize\<close>): push on the bucket of the identifier, or set a new one-element array.
\<close>

definition addRecord ::
  "Uri \<Rightarrow> WalkerResult \<Rightarrow> id_view \<times> store \<times> addr \<Rightarrow> id_view \<times> store \<times> addr" where
  "addRecord uri res = (\<lambda>(m, h, n).
     let newRecord = with_file res uri
     in case m (w_id res) of
          Some entry \<Rightarrow> (m, h(entry := h entry @ [newRecord]), n)
        | None \<Rightarrow> (m(w_id res \<mapsto> n), h(n := [newRecord]), Suc n))"

text \<open>
  The body of the loop that removes the old records of the saved document (source lines
  91 to 102): in the bucket of the identifier, the first record of that document is spliced
  out, and the key is deleted when the bucket is then empty.
\<close>

definition removeOld ::
  "string \<Rightarrow> WalkerResult \<Rightarrow> id_view \<times> store \<Rightarrow> id_view \<times> store" where
  "removeOld key res = (\<lambda>(m, h).
     case m (w_id res) of
       None \<Rightarrow> (m, h)
     | Some entry \<Rightarrow>
         (case findIndex (\<lambda>c. uri_toString (w_file c) = key) (h entry) of
            None \<Rightarrow> (m, h)
          | Some fileIndex \<Rightarrow>
              let h' = h(entry := splice1 fileIndex (h entry))
              in if length (h' entry) = 0 then (m(w_id res := None), h') else (m, h')))"

text \<open>
  \<^verbatim>\<open>onDocumentSave\<close>. The two \<^verbatim>\<open>next\<close> calls at its end set the two private fields one
  after the other; the state returned is the state after both.
\<close>

definition onDocumentSave ::
  "(string \<Rightarrow> WalkerResult list) \<Rightarrow> TextDocument \<Rightarrow> engine \<Rightarrow> engine" where
  "onDocumentSave walker document e =
     (if \<not> endsWith (uri_path (doc_uri document)) ''.html'' then e
      else case (resultsByFile e, resultsById e) of
        (Some byFile, Some byId) \<Rightarrow>
          let results = getI18nResultsForFile walker document;
              key = uri_toString (doc_uri document);
              newFileMap = byFile(key \<mapsto> results);
              (m1, h1) = (case byFile key of
                            None \<Rightarrow> (byId, arrays e)
                          | Some oldRegistry \<Rightarrow> fold (removeOld key) oldRegistry (byId, arrays e));
              (newIdMap, h2, n2) = fold (addRecord (doc_uri document)) results (m1, h1, next_addr e)
          in e\<lparr>resultsByFile := Some newFileMap, resultsById := Some newIdMap,
               arrays := h2, next_addr := n2\<rparr>
      | _ \<Rightarrow>
          e\<lparr>console := console e @
                [Err ''[i18n-manager] We were not able to handle a saved document'']\<rparr>)"

text \<open>
  \<^verbatim>\<open>initialize\<close>, the part that runs before it returns: the guard, \<^verbatim>\<open>registerEvents\<close>,
  the change of state and the start of the scan (\<^verbatim>\<open>workspace.findFiles(...).then(...)\<close>).
  The scan itself completes later (\<open>scanFinished\<close>).
\<close>

definition initialize :: "engine \<Rightarrow> engine" where
  "initialize e =
     (if e_state e \<noteq> Uninitialized then e
      else e\<lparr>console := console e @ [Log ''[i18n-manager] initializing i18n repository''],
             registered := True, e_state := Initializing, scan_pending := True\<rparr>)"

text \<open>
  The promise of one file of the scan, \<^verbatim>\<open>openTextDocument(uri).then(...)\<close>: rejected (the
  document could not be opened, or its callback threw), with the reason as the template
  literal \<^verbatim>\<open>${err}\<close> prints it, or resolved with the document.
\<close>

datatype opened = is_Rejected: Rejected string | Resolved TextDocument

text \<open>
  \<^verbatim>\<open>Promise.all\<close> rejects with the reason of the first promise that is rejected: \<open>files\<close>
  are listed in the order in which their promises settled.
\<close>

fun firstRejection :: "(Uri \<times> opened) list \<Rightarrow> string option" where
  "firstRejection [] = None"
| "firstRejection ((uri, Rejected err) # files) = Some err"
| "firstRejection ((uri, Resolved document) # files) = firstRejection files"

text \<open>The callback of one resolved file (source lines 165 to 179).\<close>

definition scanDocument ::
  "(string \<Rightarrow> WalkerResult list) \<Rightarrow> Uri \<times> opened \<Rightarrow>
   file_view \<times> id_view \<times> store \<times> addr \<Rightarrow> file_view \<times> id_view \<times> store \<times> addr" where
  "scanDocument walker = (\<lambda>(uri, outcome) (resultByFileName, resultById).
     case outcome of
       Rejected err \<Rightarrow> (resultByFileName, resultById)
     | Resolved document \<Rightarrow>
         let walkerResults = getI18nResultsForFile walker document
         in if length walkerResults > 0
            then (resultByFileName(uri_toString uri \<mapsto> walkerResults),
                  fold (addRecord uri) walkerResults resultById)
            else (resultByFileName, resultById))"

text \<open>
  The end of the scan (source lines 182 to 191). \<open>files\<close> are the files found, each with
  the outcome of its promise, in the order in which the promises settled. If a promise was
  rejected, \<^verbatim>\<open>Promise.all\<close> rejects and the \<^verbatim>\<open>catch\<close> handler logs the reason (the
  callbacks of the other files have filled maps that are local to \<^verbatim>\<open>initialize\<close> and are
  dropped); otherwise the state becomes \<^verbatim>\<open>initialized\<close> and both maps are published. Either
  way the scan is no longer pending.
\<close>

definition scanFinished ::
  "(string \<Rightarrow> WalkerResult list) \<Rightarrow> (Uri \<times> opened) list \<Rightarrow> engine \<Rightarrow> engine" where
  "scanFinished walker files e =
     (case firstRejection files of
        Some err \<Rightarrow>
          e\<lparr>console := console e @
                [Err (''[i18n-manager]: Failed to initialize i18n repository: '' @ err)],
            scan_pending := False\<rparr>
      | None \<Rightarrow>
          let (resultByFileName, resultById, h, n) =
                fold (scanDocument walker) files (Map.empty, Map.empty, arrays e, next_addr e)
          in e\<lparr>e_state := Initialized, resultsByFile := Some resultByFileName,
               resultsById := Some resultById, arrays := h, next_addr := n,
               console := console e @ [Log ''[i18n-manager] initialized i18n repository''],
               scan_pending := False\<rparr>)"

section \<open>The save listener and its timers\<close>

text \<open>
  \<^verbatim>\<open>savedDocumentSubject.next(doc)\<close>: the subscription of \<^verbatim>\<open>registerEvents\<close> calls
  \<^verbatim>\<open>onDocumentSave\<close> at once.
\<close>

definition emitSaved ::
  "(string \<Rightarrow> WalkerResult list) \<Rightarrow> TextDocument \<Rightarrow> engine \<Rightarrow> engine" where
  "emitSaved walker doc e = onDocumentSave walker doc (e\<lparr>delivered := delivered e @ [doc]\<rparr>)"

text \<open>
  The listener of \<^verbatim>\<open>workspace.onDidSaveTextDocument\<close> (source lines 122 to 134). It exists
  once \<^verbatim>\<open>registerEvents\<close> has run. When the engine is not initialized it starts a timer
  with \<^verbatim>\<open>setInterval(..., 1000)\<close>, whose first callback is due 1000 ms later.
\<close>

definition onDidSaveTextDocument ::
  "(string \<Rightarrow> WalkerResult list) \<Rightarrow> TextDocument \<Rightarrow> engine \<Rightarrow> engine" where
  "onDidSaveTextDocument walker doc e =
     (if \<not> registered e then e
      else if e_state e = Initialized then emitSaved walker doc e
      else e\<lparr>intervals :=
               intervals e @ [\<lparr>t_id = next_interval e, t_due = now e + 1000, t_doc = doc\<rparr>],
             next_interval := Suc (next_interval e)\<rparr>)"

text \<open>\<^verbatim>\<open>clearInterval(interval)\<close>\<close>

definition clearInterval :: "nat \<Rightarrow> engine \<Rightarrow> engine" where
  "clearInterval i e = e\<lparr>intervals := filter (\<lambda>x. t_id x \<noteq> i) (intervals e)\<rparr>"

text \<open>The callback of the timer (source lines 127 to 132).\<close>

definition intervalCallback ::
  "(string \<Rightarrow> WalkerResult list) \<Rightarrow> nat \<Rightarrow> TextDocument \<Rightarrow> engine \<Rightarrow> engine" where
  "intervalCallback walker i doc e =
     (if e_state e = Initialized then clearInterval i (emitSaved walker doc e) else e)"

text \<open>
  The runtime's part of \<^verbatim>\<open>setInterval\<close>: a timer that is due runs its callback and, unless
  the callback cleared it, is due again 1000 ms later.
\<close>

definition fire ::
  "(string \<Rightarrow> WalkerResult list) \<Rightarrow> interval_timer \<Rightarrow> engine \<Rightarrow> engine" where
  "fire walker timer e =
     (let e1 = intervalCallback walker (t_id timer) (t_doc timer) e
      in e1\<lparr>intervals :=
              map (\<lambda>x. if t_id x = t_id timer then x\<lparr>t_due := t_due x + 1000\<rparr> else x)
                (intervals e1)\<rparr>)"

text \<open>
  One millisecond passes: the clock advances, and the timers that are due at the new time
  fire, in the order in which they were started.
\<close>

definition tick :: "(string \<Rightarrow> WalkerResult list) \<Rightarrow> engine \<Rightarrow> engine" where
  "tick walker e =
     (let e1 = e\<lparr>now := now e + 1\<rparr>
      in fold (fire walker) (filter (\<lambda>x. t_due x = now e1) (intervals e1)) e1)"


text \<open>
  What can happen to an engine: a call of \<^verbatim>\<open>initialize\<close>, a save notification of the
  editor, a millisecond passing, and the promise of the scan settling. The runtime settles
  the promise of a scan once, and only of a scan that \<^verbatim>\<open>initialize\<close> has started.
\<close>

datatype event =
  CallInitialize
| SaveNotification TextDocument
| Millisecond
| is_ScanSettles: ScanSettles "(Uri \<times> opened) list"

fun step :: "(string \<Rightarrow> WalkerResult list) \<Rightarrow> event \<Rightarrow> engine \<Rightarrow> engine" where
  "step walker CallInitialize e = initialize e"
| "step walker (SaveNotification doc) e = onDidSaveTextDocument walker doc e"
| "step walker Millisecond e = tick walker e"
| "step walker (ScanSettles files) e =
     (if scan_pending e then scanFinished walker files e else e)"

section \<open>Reading the views\<close>

text \<open>
  Definitions used to state and prove the properties of the two views: the bucket of an
  identifier and the occurrences of a document (empty when the key is absent), the
  well-formedness of the store, and the agreement of the two views.
\<close>

text \<open>The \<^verbatim>\<open>WalkerResult\<close> part of a by-identifier record.\<close>

definition without_file :: "WalkerByIdResult \<Rightarrow> WalkerResult" where
  "without_file c =
     \<lparr>w_id = w_id c, w_value = w_value c, w_state = w_state c, w_error = w_error c,
      w_location = w_location c\<rparr>"

text \<open>The bucket of an identifier in a by-identifier map, read through a store.\<close>

definition bucket :: "id_view \<Rightarrow> store \<Rightarrow> string \<Rightarrow> WalkerByIdResult list" where
  "bucket m h I = (case m I of None \<Rightarrow> [] | Some a \<Rightarrow> h a)"

text \<open>The occurrences of a document in a by-file map.\<close>

definition file_bucket :: "file_view \<Rightarrow> string \<Rightarrow> WalkerResult list" where
  "file_bucket bf D = (case bf D of None \<Rightarrow> [] | Some rs \<Rightarrow> rs)"

text \<open>
  A record is tagged with document \<open>D\<close> when the string of its \<^verbatim>\<open>file\<close> is \<open>D\<close>, the
  comparison \<^verbatim>\<open>onDocumentSave\<close> makes.
\<close>

definition tagged :: "string \<Rightarrow> WalkerByIdResult \<Rightarrow> bool" where
  "tagged D c = (uri_toString (w_file c) = D)"

text \<open>
  The store is well formed for a map: every key has an allocated, non-empty array, and two
  keys never share an array.
\<close>

definition store_ok :: "id_view \<Rightarrow> store \<Rightarrow> addr \<Rightarrow> bool" where
  "store_ok m h n = ((\<forall>I a. m I = Some a \<longrightarrow> a < n \<and> h a \<noteq> []) \<and> inj_on m (dom m))"

text \<open>
  The two views agree: for every document and identifier, the records of the bucket that
  are tagged with the document are, in order, the document's occurrences of that
  identifier.
\<close>

definition indexes_agree :: "file_view \<Rightarrow> (string \<Rightarrow> WalkerByIdResult list) \<Rightarrow> bool" where
  "indexes_agree bf B =
     (\<forall>D I. map without_file (filter (tagged D) (B I)) = filter (\<lambda>r. w_id r = I) (file_bucket bf D))"

text \<open>The invariant of the engine: nothing is published, or both views are and agree.\<close>

definition engine_ok :: "engine \<Rightarrow> bool" where
  "engine_ok e =
     (case (resultsByFile e, resultsById e) of
        (Some bf, Some m) \<Rightarrow>
          store_ok m (arrays e) (next_addr e) \<and> indexes_agree bf (bucket m (arrays e))
      | (None, None) \<Rightarrow> True
      | _ \<Rightarrow> False)"

text \<open>
  The buckets after the records of one document are replaced: the records of other
  documents, then the new records of the document.
\<close>

definition replaced ::
  "Uri \<Rightarrow> WalkerResult list \<Rightarrow> (string \<Rightarrow> WalkerByIdResult list) \<Rightarrow> (string \<Rightarrow> WalkerByIdResult list)" where
  "replaced uri R B =
     (\<lambda>I. filter (\<lambda>c. \<not> tagged (uri_toString uri) c) (B I) @
          map (\<lambda>r. with_file r uri) (filter (\<lambda>r. w_id r = I) R))"

text \<open>
  The published views of an engine: the occurrences of a document and the bucket of an
  identifier (empty when nothing is published or the key is absent), the entry of a
  document in the by-file view (\<^verbatim>\<open>_resultsByFile.get(D)\<close>), the bucket of the
  by-identifier view of one state read through the store of another, and the contents of
  the by-identifier view.
\<close>

definition by_file :: "engine \<Rightarrow> string \<Rightarrow> WalkerResult list" where
  "by_file e D = (case resultsByFile e of None \<Rightarrow> [] | Some bf \<Rightarrow> file_bucket bf D)"

definition by_id :: "engine \<Rightarrow> string \<Rightarrow> WalkerByIdResult list" where
  "by_id e I = (case resultsById e of None \<Rightarrow> [] | Some m \<Rightarrow> bucket m (arrays e) I)"

definition file_entry :: "engine \<Rightarrow> string \<Rightarrow> WalkerResult list option" where
  "file_entry e D = (case resultsByFile e of None \<Rightarrow> None | Some bf \<Rightarrow> bf D)"

definition read_by_id :: "engine \<Rightarrow> store \<Rightarrow> string \<Rightarrow> WalkerByIdResult list option" where
  "read_by_id e h key = (case resultsById e of None \<Rightarrow> None | Some m \<Rightarrow> snapshot h m key)"

definition by_id_contents :: "engine \<Rightarrow> (string \<rightharpoonup> WalkerByIdResult list) option" where
  "by_id_contents e = map_option (snapshot (arrays e)) (resultsById e)"

text \<open>
  \<^verbatim>\<open>findIndex\<close> and \<^verbatim>\<open>splice\<close> together, and the two loop bodies of \<^verbatim>\<open>onDocumentSave\<close> as
  functions on buckets.
\<close>

definition remove_first :: "('a \<Rightarrow> bool) \<Rightarrow> 'a list \<Rightarrow> 'a list" where
  "remove_first p xs = (case findIndex p xs of None \<Rightarrow> xs | Some i \<Rightarrow> splice1 i xs)"

definition addB :: "Uri \<Rightarrow> WalkerResult \<Rightarrow> (string \<Rightarrow> WalkerByIdResult list) \<Rightarrow> (string \<Rightarrow> WalkerByIdResult list)" where
  "addB uri res B = B(w_id res := B (w_id res) @ [with_file res uri])"

definition remB :: "string \<Rightarrow> WalkerResult \<Rightarrow> (string \<Rightarrow> WalkerByIdResult list) \<Rightarrow> (string \<Rightarrow> WalkerByIdResult list)" where
  "remB key res B = B(w_id res := remove_first (tagged key) (B (w_id res)))"

text \<open>
  The state of an engine during its scan: \<^verbatim>\<open>initializing\<close>, the scan pending, nothing
  published, nothing delivered, one line logged.
\<close>

definition scanning :: "engine \<Rightarrow> bool" where
  "scanning e =
     (e_state e = Initializing \<and> scan_pending e \<and>
      resultsByFile e = None \<and> resultsById e = None \<and> delivered e = [] \<and>
      console e = [Log ''[i18n-manager] initializing i18n repository''])"

text \<open>
  The state of an engine whose scan has failed: still \<^verbatim>\<open>initializing\<close>, no scan pending,
  nothing published.
\<close>

definition scan_failed :: "engine \<Rightarrow> bool" where
  "scan_failed e =
     (e_state e = Initializing \<and> \<not> scan_pending e \<and>
      resultsByFile e = None \<and> resultsById e = None)"

section \<open>Example data\<close>

definition a_html :: Uri where
  "a_html = \<lparr>uri_path = ''/a.html'', uri_toString = ''file:///a.html''\<rparr>"

definition b_html :: Uri where
  "b_html = \<lparr>uri_path = ''/b.html'', uri_toString = ''file:///b.html''\<rparr>"

text \<open>An occurrence in state \<^verbatim>\<open>success\<close>, as the extractor reports it.\<close>

definition occurrence :: "string \<Rightarrow> string option \<Rightarrow> nat \<Rightarrow> WalkerResult" where
  "occurrence i v l = \<lparr>w_id = i, w_value = v, w_state = Success, w_error = None, w_location = l\<rparr>"

text \<open>
  An extractor for the examples: it reports one occurrence of the identifier \<^verbatim>\<open>welcome\<close>
  whose value is the whole text of the document.
\<close>

definition example_walker :: "string \<Rightarrow> WalkerResult list" where
  "example_walker text = [occurrence ''welcome'' (Some text) 0]"

definition doc_a :: TextDocument where
  "doc_a = \<lparr>doc_uri = a_html, doc_text = ''Hello {{name}}''\<rparr>"

definition doc_b :: TextDocument where
  "doc_b = \<lparr>doc_uri = b_html, doc_text = ''Hello {{other}}''\<rparr>"

definition doc_b_edited :: TextDocument where
  "doc_b_edited = \<lparr>doc_uri = b_html, doc_text = ''Hi {{other}}''\<rparr>"

definition doc_a_emptied :: TextDocument where
  "doc_a_emptied = \<lparr>doc_uri = a_html, doc_text = []\<rparr>"

section \<open>Properties of the normalisation\<close>

lemma rx_newline: "rx_match re_newline (c # cs) = (if c = LF \<or> c = CR then Some 1 else None)"
  by (simp add: re_newline_def)

lemma replace_newline: "replace_g re_newline [] s = delete_newlines s"
  by (induction s) (auto simp: rx_newline delete_newlines_def re_newline_def)

lemma rx_spaces_Nil: "rx_match re_spaces [] = None"
  by (simp add: re_spaces_def)

lemma rx_spaces:
  "rx_match re_spaces (c # cs) =
     (if c = CHR '' '' then Some (Suc (length (takeWhile (\<lambda>c. c = CHR '' '') cs))) else None)"
  unfolding re_spaces_def
  by (induction cs arbitrary: c) (auto split: option.splits)

lemma collapse_spaces_run:
  "collapse_spaces (CHR '' '' # cs) =
     CHR '' '' # collapse_spaces (dropWhile (\<lambda>c. c = CHR '' '') cs)"
  by (induction cs) auto

lemma replace_spaces: "replace_g re_spaces '' '' s = collapse_spaces s"
proof (induction s rule: length_induct)
  case (1 s)
  show ?case
  proof (cases s)
    case Nil
    then show ?thesis by (simp add: rx_spaces_Nil)
  next
    case (Cons c cs)
    show ?thesis
    proof (cases "c = CHR '' ''")
      case True
      have "length (dropWhile (\<lambda>c. c = CHR '' '') cs) < length s"
        using Cons length_dropWhile_le [of "\<lambda>c. c = CHR '' ''" cs] by simp
      with 1 have "replace_g re_spaces '' '' (dropWhile (\<lambda>c. c = CHR '' '') cs) =
          collapse_spaces (dropWhile (\<lambda>c. c = CHR '' '') cs)"
        by blast
      then show ?thesis using Cons True
        by (simp add: rx_spaces collapse_spaces_run dropWhile_eq_drop)
    next
      case False
      with 1 Cons have "replace_g re_spaces '' '' cs = collapse_spaces cs" by simp
      then show ?thesis using Cons False
        by (cases cs) (simp_all add: rx_spaces rx_spaces_Nil)
    qed
  qed
qed

lemma rx_payload:
  "rx_match [(\<lambda>c. c \<noteq> CHR ''}'', OneOrMore), (\<lambda>c. c = CHR ''}'', One), (\<lambda>c. c = CHR ''}'', One)] t =
     (if takeWhile (\<lambda>c. c \<noteq> CHR ''}'') t \<noteq> [] \<and> take 2 (dropWhile (\<lambda>c. c \<noteq> CHR ''}'') t) = ''}}''
      then Some (length (takeWhile (\<lambda>c. c \<noteq> CHR ''}'') t) + 2) else None)"
proof (induction t)
  case Nil
  then show ?case by simp
next
  case (Cons c cs)
  show ?case
  proof (cases "c = CHR ''}''")
    case True
    then show ?thesis by simp
  next
    case False
    show ?thesis
    proof (cases cs)
      case Nil
      then show ?thesis using False by simp
    next
      case (Cons d ds)
      show ?thesis
      proof (cases "d = CHR ''}''")
        case True
        then show ?thesis using False Cons
          by (cases ds) (auto)
      next
        case d: False
        then show ?thesis using False Cons Cons.IH
          by (auto split: option.splits)
      qed
    qed
  qed
qed

lemma rx_interpolation_None:
  "placeholder_at s = None \<Longrightarrow> rx_match re_interpolation s = None"
  unfolding re_interpolation_def placeholder_at_def
  by (auto simp: rx_payload Let_def split: list.splits if_splits)

lemma rx_interpolation_Some:
  assumes "placeholder_at (c # cs) = Some rest"
  shows "\<exists>n. rx_match re_interpolation (c # cs) = Some (Suc n) \<and> drop n cs = rest"
proof -
  from assms obtain t where cs: "cs = CHR ''{'' # t" and c: "c = CHR ''{''"
    and p: "takeWhile (\<lambda>c. c \<noteq> CHR ''}'') t \<noteq> []"
    and a: "take 2 (dropWhile (\<lambda>c. c \<noteq> CHR ''}'') t) = ''}}''"
    and rest: "rest = drop 2 (dropWhile (\<lambda>c. c \<noteq> CHR ''}'') t)"
    by (auto simp: placeholder_at_def Let_def split: list.splits if_splits)
  let ?n = "Suc (Suc (Suc (length (takeWhile (\<lambda>c. c \<noteq> CHR ''}'') t))))"
  have "rx_match re_interpolation (c # cs) = Some (Suc ?n)"
    using c cs p a by (simp add: re_interpolation_def rx_payload)
  moreover have "drop ?n cs = rest"
    using cs rest by (simp add: dropWhile_eq_drop)
  ultimately show ?thesis by blast
qed

lemma replace_interpolation: "replace_g re_interpolation ''{}'' s = collapse_placeholders s"
proof (induction s rule: collapse_placeholders.induct)
  case 1
  then show ?case by (simp add: re_interpolation_def)
next
  case (2 c cs)
  show ?case
  proof (cases "placeholder_at (c # cs)")
    case None
    then show ?thesis using 2 by (simp add: rx_interpolation_None)
  next
    case (Some rest)
    from rx_interpolation_Some [OF Some] obtain n
      where "rx_match re_interpolation (c # cs) = Some (Suc n)" "drop n cs = rest" by blast
    then show ?thesis using 2 Some by simp
  qed
qed

lemma strippedString_examples:
  "strippedString (Some ''Hi {{name}}'') = Some ''Hi {}''"
  "strippedString (Some ''Hi {{other}}'') = Some ''Hi {}''"
  by (simp_all add: strippedString_def re_newline_def re_interpolation_def re_spaces_def
        LF_def CR_def)

text \<open>
  What the expression for placeholders does not match is left as it is: double braces
  around nothing, and double braces around a payload that contains a closing brace.
\<close>

lemma strippedString_not_placeholders:
  "strippedString (Some ''{{}}'') = Some ''{{}}''"
  "strippedString (Some ''{{a}b}}'') = Some ''{{a}b}}''"
  by (simp_all add: strippedString_def re_newline_def re_interpolation_def re_spaces_def
        LF_def CR_def)

lemma strippedString_Some: "strippedString (Some s) = Some (normalize_matched s)"
  by (cases "s = []")
     (simp_all add: strippedString_def normalize_matched_def replace_newline replace_interpolation
        replace_spaces delete_newlines_def)

text \<open>
  Claim C5, as stated: every interpolation placeholder delimited by double braces is
  collapsed to \<^verbatim>\<open>{}\<close>. The value \<^verbatim>\<open>Hi {{ user | t:{n:1} }}\<close> holds a substring delimited
  by double braces, and so does \<^verbatim>\<open>Hi {{}}\<close>: normalised as the claim words it, both
  become \<^verbatim>\<open>Hi {}\<close>. \<^verbatim>\<open>strippedString\<close> returns both as they are, since its expression
  wants a payload of at least one character and without a closing brace.
\<close>

theorem strippedString_delimited_counterexample:
  "normalize_worded ''Hi {{ user | t:{n:1} }}'' = ''Hi {}'' \<and>
   strippedString (Some ''Hi {{ user | t:{n:1} }}'') = Some ''Hi {{ user | t:{n:1} }}'' \<and>
   normalize_worded ''Hi {{}}'' = ''Hi {}'' \<and>
   strippedString (Some ''Hi {{}}'') = Some ''Hi {{}}''"
  by (simp add: normalize_worded_def delete_newlines_def delimited_at_def
        strippedString_def re_newline_def re_interpolation_def re_spaces_def LF_def CR_def)

text \<open>
  Claim C5, amended. For every string value, \<^verbatim>\<open>strippedString\<close> (the three
  regular-expression replacements of the source) returns the value with all newline
  characters (line feed and carriage return) deleted, then every placeholder that is a
  pair of double braces around a non-empty payload without a closing brace collapsed to
  \<^verbatim>\<open>{}\<close>, then every run of spaces collapsed to one space. \<^verbatim>\<open>Hi {{name}}\<close> and
  \<^verbatim>\<open>Hi {{other}}\<close> both normalise to \<^verbatim>\<open>Hi {}\<close>; double braces around nothing, or around a
  payload that contains a closing brace, are left as they are.
\<close>

theorem strippedString_normalizes:
  "strippedString (Some s) = Some (normalize_matched s) \<and>
   strippedString (Some ''Hi {{name}}'') = Some ''Hi {}'' \<and>
   strippedString (Some ''Hi {{other}}'') = Some ''Hi {}'' \<and>
   strippedString (Some ''{{}}'') = Some ''{{}}'' \<and>
   strippedString (Some ''{{a}b}}'') = Some ''{{a}b}}''"
  by (intro conjI strippedString_Some strippedString_examples strippedString_not_placeholders)

section \<open>Properties of the validated view\<close>

lemma indexOf_ge: "- 1 \<le> indexOf v c"
  by (induction v) (auto simp: Let_def)

lemma indexOf_iff: "indexOf v c \<noteq> - 1 \<longleftrightarrow> c \<in> set v"
proof (induction v)
  case Nil
  show ?case by simp
next
  case (Cons x xs)
  have "indexOf xs c + 1 \<noteq> - 1"
    using indexOf_ge [of xs c] by linarith
  with Cons show ?case by (auto simp: Let_def)
qed

lemma bucket_values_filter:
  "bucket_values rs = map w_value (filter (\<lambda>r. truthy (w_value r)) rs)"
  by (simp add: bucket_values_def filter_map comp_def)

lemma values_mismatch_iff:
  "values_mismatch rs \<longleftrightarrow>
     2 \<le> length (filter (\<lambda>r. truthy (w_value r)) rs) \<and>
     (\<exists>r \<in> set (filter (\<lambda>r. truthy (w_value r)) rs).
        strippedString (w_value r) \<noteq>
        strippedString (w_value (hd (filter (\<lambda>r. truthy (w_value r)) rs))))"
proof -
  let ?ne = "filter (\<lambda>r. truthy (w_value r)) rs"
  have "first_value (map w_value ?ne) = w_value (hd ?ne)" if "?ne \<noteq> []"
    using that by (cases ?ne) (simp_all add: first_value_def)
  moreover have "?ne \<noteq> []" if "2 \<le> length ?ne"
    using that by auto
  ultimately show ?thesis
    unfolding values_mismatch_def bucket_values_filter Let_def list_ex_iff
    by (cases "2 \<le> length ?ne") (auto simp del: filter.simps)
qed

lemma check_html_not_success: "w_state r \<noteq> Success \<Longrightarrow> check_html r = r"
  by (simp add: check_html_def)

lemma check_html_tag:
  "w_state r = Success \<Longrightarrow> w_value r = Some v \<Longrightarrow> CHR ''<'' \<in> set v \<Longrightarrow>
   check_html r = r\<lparr>w_state := Warning, w_error := Some html_message\<rparr>"
  using indexOf_iff [of v "CHR ''<''"] by (auto simp: check_html_def)

lemma check_html_no_value: "w_value r = None \<Longrightarrow> check_html r = r"
  by (simp add: check_html_def)

lemma check_html_no_regress: "w_state r \<noteq> Success \<Longrightarrow> w_state (check_html r) \<noteq> Success"
  by (simp add: check_html_def)

lemma mark_mismatch_length: "length (mark_mismatch rs) = length rs"
  by (simp add: mark_mismatch_def)

lemma mark_mismatch_no_regress:
  "i < length rs \<Longrightarrow> w_state (rs ! i) \<noteq> Success \<Longrightarrow> w_state (mark_mismatch rs ! i) \<noteq> Success"
  by (simp add: mark_mismatch_def)

lemma validate_bucket_nth:
  "i < length rs \<Longrightarrow> validate_bucket rs ! i = check_html (mark_mismatch rs ! i)"
  by (simp add: validate_bucket_def mark_mismatch_length)

lemma validate_bucket_mismatch:
  "values_mismatch rs \<Longrightarrow>
   validate_bucket rs = map (\<lambda>r. r\<lparr>w_state := Error, w_error := Some mismatch_message\<rparr>) rs"
  by (simp add: validate_bucket_def mark_mismatch_def check_html_def)

text \<open>
  Claim C1, as stated: in a bucket of at least two occurrences, if some occurrence's
  normalised value differs from the normalised value of the first occurrence, every
  occurrence of the validated bucket is in state \<^verbatim>\<open>error\<close> with the mismatch message. It
  fails for a bucket of two occurrences of which the second has no value: the normalised
  values differ (\<^verbatim>\<open>undefined\<close> against \<^verbatim>\<open>Hi\<close>), and the validated bucket is the bucket
  itself, both occurrences still in state \<^verbatim>\<open>success\<close>.
\<close>

theorem consistency_first_occurrence_counterexample:
  "\<not> (2 \<le> length [with_file (occurrence ''welcome'' (Some ''Hi'') 0) a_html,
                     with_file (occurrence ''welcome'' None 0) b_html] \<and>
       (\<exists>r \<in> set [with_file (occurrence ''welcome'' (Some ''Hi'') 0) a_html,
                     with_file (occurrence ''welcome'' None 0) b_html].
          strippedString (w_value r) \<noteq>
          strippedString (w_value (hd [with_file (occurrence ''welcome'' (Some ''Hi'') 0) a_html,
                                      with_file (occurrence ''welcome'' None 0) b_html])))
       \<longrightarrow>
       (\<forall>r \<in> set (validate_bucket [with_file (occurrence ''welcome'' (Some ''Hi'') 0) a_html,
                                       with_file (occurrence ''welcome'' None 0) b_html]).
          w_state r = Error \<and> w_error r = Some mismatch_message))"
  by (simp add: validate_bucket_def mark_mismatch_def values_mismatch_def bucket_values_def
        truthy_def check_html_def with_file_def occurrence_def strippedString_def)

text \<open>
  Claim C1, amended: the comparison is among the occurrences that carry a non-empty value.
  For every bucket of the by-identifier view: if at least two of its occurrences carry a
  non-empty value and the normalised value of one of them differs from that of the first of
  them, then in the validated view every occurrence of the bucket (with or without a
  value, whatever its state was) is in state \<^verbatim>\<open>error\<close> with the message
  "There are other items registered with this ID whose value do not match!"; otherwise the
  consistency step leaves the bucket as it is.
\<close>

theorem consistency_rule:
  "res key = Some results \<Longrightarrow>
   (let carrying = filter (\<lambda>r. truthy (w_value r)) results;
        differ = (2 \<le> length carrying \<and>
                  (\<exists>r \<in> set carrying.
                     strippedString (w_value r) \<noteq> strippedString (w_value (hd carrying))))
    in (differ \<longrightarrow>
          validatedResultsById res key =
            Some (map (\<lambda>r. r\<lparr>w_state := Error, w_error := Some mismatch_message\<rparr>) results)) \<and>
       (\<not> differ \<longrightarrow> mark_mismatch results = results) \<and>
       mismatch_message =
         ''There are other items registered with this ID whose value do not match!'')"
  unfolding Let_def values_mismatch_iff [symmetric]
  by (simp add: validatedResultsById_def validate_bucket_mismatch mark_mismatch_def
        mismatch_message_def)

theorem consistency_rule_witness:
  "validatedResultsById
     [''welcome'' \<mapsto> [with_file (occurrence ''welcome'' (Some ''Hi {{name}}'') 0) a_html,
                        with_file (occurrence ''welcome'' (Some ''Bye {{name}}'') 0) b_html]]
     ''welcome'' =
   Some [with_file (occurrence ''welcome'' (Some ''Hi {{name}}'') 0) a_html
           \<lparr>w_state := Error, w_error := Some mismatch_message\<rparr>,
         with_file (occurrence ''welcome'' (Some ''Bye {{name}}'') 0) b_html
           \<lparr>w_state := Error, w_error := Some mismatch_message\<rparr>] \<and>
   mark_mismatch [with_file (occurrence ''welcome'' (Some ''Hello {{name}}'') 0) a_html,
                  with_file (occurrence ''welcome'' (Some ''Hello {{other}}'') 0) b_html] =
     [with_file (occurrence ''welcome'' (Some ''Hello {{name}}'') 0) a_html,
      with_file (occurrence ''welcome'' (Some ''Hello {{other}}'') 0) b_html]"
  using
    consistency_rule [of
      "[''welcome'' \<mapsto> [with_file (occurrence ''welcome'' (Some ''Hi {{name}}'') 0) a_html,
                          with_file (occurrence ''welcome'' (Some ''Bye {{name}}'') 0) b_html]]"
      "''welcome''"
      "[with_file (occurrence ''welcome'' (Some ''Hi {{name}}'') 0) a_html,
        with_file (occurrence ''welcome'' (Some ''Bye {{name}}'') 0) b_html]"]
    consistency_rule [of
      "[''welcome'' \<mapsto> [with_file (occurrence ''welcome'' (Some ''Hello {{name}}'') 0) a_html,
                          with_file (occurrence ''welcome'' (Some ''Hello {{other}}'') 0) b_html]]"
      "''welcome''"
      "[with_file (occurrence ''welcome'' (Some ''Hello {{name}}'') 0) a_html,
        with_file (occurrence ''welcome'' (Some ''Hello {{other}}'') 0) b_html]"]
  by (simp add: Let_def truthy_def with_file_def occurrence_def strippedString_Some
        normalize_matched_def delete_newlines_def placeholder_at_def LF_def CR_def)

text \<open>
  Claim C10. The condition of the consistency step holds exactly when at least two
  occurrences of the bucket carry a non-empty value and the normalised value of one of
  them differs from the normalised value of the first occurrence that carries one;
  occurrences with an absent or empty value take no part. So a bucket of two or more
  occurrences of which at most one carries a non-empty value is never marked.
\<close>

theorem consistency_ignores_empty_values:
  "(let carrying = filter (\<lambda>r. w_value r \<noteq> None \<and> w_value r \<noteq> Some []) results
    in (values_mismatch results \<longleftrightarrow>
          2 \<le> length carrying \<and>
          list_ex (\<lambda>r. strippedString (w_value r) \<noteq> strippedString (w_value (hd carrying)))
            carrying) \<and>
       (2 \<le> length results \<and> length carrying \<le> 1 \<longrightarrow>
          \<not> values_mismatch results \<and> mark_mismatch results = results))"
proof -
  have "(\<lambda>r::WalkerByIdResult. w_value r \<noteq> None \<and> w_value r \<noteq> Some []) =
        (\<lambda>r. truthy (w_value r))"
    by (auto simp: truthy_def fun_eq_iff split: option.splits)
  then show ?thesis
    unfolding Let_def list_ex_iff
    by (auto simp: values_mismatch_iff mark_mismatch_def)
qed

theorem consistency_ignores_empty_values_witness:
  "2 \<le> length [with_file (occurrence ''welcome'' None 0) a_html,
                 with_file (occurrence ''welcome'' (Some ''Hi'') 0) b_html,
                 with_file (occurrence ''welcome'' (Some []) 1) b_html] \<and>
   mark_mismatch [with_file (occurrence ''welcome'' None 0) a_html,
                  with_file (occurrence ''welcome'' (Some ''Hi'') 0) b_html,
                  with_file (occurrence ''welcome'' (Some []) 1) b_html] =
     [with_file (occurrence ''welcome'' None 0) a_html,
      with_file (occurrence ''welcome'' (Some ''Hi'') 0) b_html,
      with_file (occurrence ''welcome'' (Some []) 1) b_html]"
  using consistency_ignores_empty_values [of
      "[with_file (occurrence ''welcome'' None 0) a_html,
        with_file (occurrence ''welcome'' (Some ''Hi'') 0) b_html,
        with_file (occurrence ''welcome'' (Some []) 1) b_html]"]
  by (simp add: Let_def with_file_def occurrence_def)

text \<open>
  Claim C4. In the validated view, an occurrence that is still in state \<^verbatim>\<open>success\<close>
  after the consistency step and whose raw value contains \<^verbatim>\<open><\<close> becomes \<^verbatim>\<open>warning\<close> with
  the message "This translation contains HTML tag. This is not recommended!"; an
  occurrence without a value, or in state \<^verbatim>\<open>error\<close> after the consistency step, is left
  as that step left it; and an occurrence that was not in state \<^verbatim>\<open>success\<close> in the
  by-identifier view is not in state \<^verbatim>\<open>success\<close> in the validated view.
\<close>

theorem html_shape_rule:
  "res key = Some results \<Longrightarrow> i < length results \<Longrightarrow>
   (let checked = mark_mismatch results ! i
    in \<exists>validated.
         validatedResultsById res key = Some validated \<and>
         length validated = length results \<and>
         (w_state checked = Success \<and> (\<exists>v. w_value checked = Some v \<and> CHR ''<'' \<in> set v) \<longrightarrow>
            validated ! i = checked\<lparr>w_state := Warning, w_error := Some html_message\<rparr>) \<and>
         (w_value checked = None \<or> w_state checked = Error \<longrightarrow> validated ! i = checked) \<and>
         (w_state (results ! i) \<noteq> Success \<longrightarrow> w_state (validated ! i) \<noteq> Success) \<and>
         html_message = ''This translation contains HTML tag. This is not recommended!'')"
proof -
  assume res: "res key = Some results" and i: "i < length results"
  let ?checked = "mark_mismatch results ! i"
  have "validatedResultsById res key = Some (validate_bucket results)"
    using res by (simp add: validatedResultsById_def)
  moreover have "length (validate_bucket results) = length results"
    by (simp add: validate_bucket_def mark_mismatch_length)
  moreover have nth: "validate_bucket results ! i = check_html ?checked"
    using i by (rule validate_bucket_nth)
  moreover have "validate_bucket results ! i =
      ?checked\<lparr>w_state := Warning, w_error := Some html_message\<rparr>"
    if "w_state ?checked = Success" "w_value ?checked = Some v" "CHR ''<'' \<in> set v" for v
    using that nth by (simp add: check_html_tag)
  moreover have "validate_bucket results ! i = ?checked"
    if "w_value ?checked = None \<or> w_state ?checked = Error"
    using that nth by (auto simp: check_html_no_value check_html_not_success)
  moreover have "w_state (validate_bucket results ! i) \<noteq> Success"
    if "w_state (results ! i) \<noteq> Success"
    using that i nth by (simp add: check_html_no_regress mark_mismatch_no_regress)
  ultimately show ?thesis
    unfolding Let_def by (auto simp: html_message_def)
qed

theorem html_shape_rule_witness:
  "validatedResultsById
     [''title'' \<mapsto> [with_file (occurrence ''title'' (Some ''<b>Hello</b>'') 0) a_html]]
     ''title'' =
   Some [with_file (occurrence ''title'' (Some ''<b>Hello</b>'') 0) a_html
           \<lparr>w_state := Warning, w_error := Some html_message\<rparr>]"
  using html_shape_rule [of
      "[''title'' \<mapsto> [with_file (occurrence ''title'' (Some ''<b>Hello</b>'') 0) a_html]]"
      "''title''" "[with_file (occurrence ''title'' (Some ''<b>Hello</b>'') 0) a_html]" 0]
  by (auto simp: Let_def mark_mismatch_def values_mismatch_def bucket_values_def truthy_def
        with_file_def occurrence_def length_Suc_conv)

section \<open>Properties of the two views\<close>

lemma remove_first_simps:
  "remove_first p [] = []"
  "remove_first p (x # xs) = (if p x then xs else x # remove_first p xs)"
  by (auto simp: remove_first_def splice1_def split: option.splits)

lemma store_ok_distinct:
  "store_ok m h n \<Longrightarrow> m I = Some a \<Longrightarrow> m J = Some a \<Longrightarrow> I = J"
  unfolding store_ok_def inj_on_def by (metis domI)

lemma tagged_eq: "tagged key = (\<lambda>c. uri_toString (w_file c) = key)"
  by (simp add: fun_eq_iff tagged_def)

lemma bucket_other:
  "store_ok m h n \<Longrightarrow> m I = Some a \<Longrightarrow> J \<noteq> I \<Longrightarrow> bucket m (h(a := xs)) J = bucket m h J"
  using store_ok_distinct [of m h n I a J]
  by (cases "m J") (auto simp: bucket_def)

lemma addRecord_bucket:
  assumes "store_ok m h n" and "addRecord uri res (m, h, n) = (m', h', n')"
  shows "store_ok m' h' n' \<and> bucket m' h' = addB uri res (bucket m h)"
proof (cases "m (w_id res)")
  case None
  with assms(2) have eq: "m' = m(w_id res \<mapsto> n)" "h' = h(n := [with_file res uri])" "n' = Suc n"
    by (auto simp: addRecord_def Let_def)
  have fresh: "m I \<noteq> Some n" for I
    using assms(1) unfolding store_ok_def by (metis less_irrefl)
  have "store_ok m' h' n'"
    using assms(1) fresh unfolding store_ok_def eq
    by (auto simp: inj_on_def less_Suc_eq dom_def)
  moreover have "bucket m' h' I = addB uri res (bucket m h) I" for I
    using None fresh [of I] unfolding eq
    by (cases "m I") (auto simp: bucket_def addB_def)
  ultimately show ?thesis by blast
next
  case (Some a)
  with assms(2) have eq: "m' = m" "h' = h(a := h a @ [with_file res uri])" "n' = n"
    by (auto simp: addRecord_def Let_def)
  have "store_ok m' h' n'"
    using assms(1) unfolding store_ok_def eq by auto
  moreover have "bucket m' h' I = addB uri res (bucket m h) I" for I
  proof (cases "I = w_id res")
    case True
    then show ?thesis using Some unfolding eq by (simp add: bucket_def addB_def)
  next
    case False
    then show ?thesis using bucket_other [OF assms(1) Some False] unfolding eq
      by (simp add: addB_def)
  qed
  ultimately show ?thesis by blast
qed

lemma findIndex_Some_less: "findIndex p xs = Some i \<Longrightarrow> i < length xs"
  by (induction xs arbitrary: i) (auto split: if_splits)

lemma removeOld_bucket:
  assumes "store_ok m h n" and "removeOld key res (m, h) = (m', h')"
  shows "store_ok m' h' n \<and> bucket m' h' = remB key res (bucket m h)"
proof (cases "m (w_id res)")
  case None
  with assms(2) have eq: "m' = m" "h' = h"
    by (auto simp: removeOld_def)
  have "bucket m h I = remB key res (bucket m h) I" for I
    using None by (simp add: bucket_def remB_def remove_first_simps)
  then show ?thesis using assms(1) unfolding eq by blast
next
  case (Some a)
  note a = Some
  show ?thesis
  proof (cases "findIndex (\<lambda>c. uri_toString (w_file c) = key) (h a)")
    case None
    with a assms(2) have eq: "m' = m" "h' = h"
      by (auto simp: removeOld_def)
    have "remove_first (tagged key) (h a) = h a"
      using None by (simp add: remove_first_def tagged_eq)
    then have "bucket m h I = remB key res (bucket m h) I" for I
      using a by (simp add: bucket_def remB_def)
    then show ?thesis using assms(1) unfolding eq by blast
  next
    case (Some i)
    let ?xs = "splice1 i (h a)"
    have rf: "remove_first (tagged key) (h a) = ?xs"
      using Some by (simp add: remove_first_def tagged_eq)
    have other: "bucket m (h(a := ?xs)) I = remB key res (bucket m h) I" if "I \<noteq> w_id res" for I
      using bucket_other [OF assms(1) a that] that by (simp add: remB_def)
    show ?thesis
    proof (cases "?xs = []")
      case True
      with a Some assms(2) have eq: "m' = m(w_id res := None)" "h' = h(a := ?xs)"
        by (auto simp: removeOld_def Let_def)
      have "store_ok m' h' n"
        using assms(1) store_ok_distinct [OF assms(1) a] unfolding store_ok_def eq
        by (auto simp: inj_on_def dom_def)
      moreover have "bucket m' h' I = remB key res (bucket m h) I" for I
      proof (cases "I = w_id res")
        case True
        then show ?thesis using a rf \<open>?xs = []\<close> unfolding eq by (simp add: bucket_def remB_def)
      next
        case False
        then have "bucket m' h' I = bucket m (h(a := ?xs)) I"
          unfolding eq by (simp add: bucket_def)
        then show ?thesis using other [OF False] by simp
      qed
      ultimately show ?thesis by blast
    next
      case False
      with a Some assms(2) have eq: "m' = m" "h' = h(a := ?xs)"
        by (auto simp: removeOld_def Let_def)
      have "store_ok m' h' n"
        using assms(1) False unfolding store_ok_def eq by auto
      moreover have "bucket m' h' I = remB key res (bucket m h) I" for I
      proof (cases "I = w_id res")
        case True
        then show ?thesis using a rf unfolding eq by (simp add: bucket_def remB_def)
      next
        case False
        then show ?thesis using other [OF False] unfolding eq by simp
      qed
      ultimately show ?thesis by blast
    qed
  qed
qed

lemma fold_addRecord_bucket:
  "store_ok m h n \<Longrightarrow> fold (addRecord uri) rs (m, h, n) = (m', h', n') \<Longrightarrow>
   store_ok m' h' n' \<and> bucket m' h' = fold (addB uri) rs (bucket m h)"
proof (induction rs arbitrary: m h n)
  case Nil
  then show ?case by simp
next
  case (Cons r rs)
  obtain m1 h1 n1 where step: "addRecord uri r (m, h, n) = (m1, h1, n1)"
    by (cases "addRecord uri r (m, h, n)") auto
  from addRecord_bucket [OF Cons.prems(1) step]
  have ok: "store_ok m1 h1 n1" and b: "bucket m1 h1 = addB uri r (bucket m h)" by auto
  from Cons.prems(2) step have "fold (addRecord uri) rs (m1, h1, n1) = (m', h', n')" by simp
  from Cons.IH [OF ok this] b show ?case by simp
qed

lemma fold_removeOld_bucket:
  "store_ok m h n \<Longrightarrow> fold (removeOld key) rs (m, h) = (m', h') \<Longrightarrow>
   store_ok m' h' n \<and> bucket m' h' = fold (remB key) rs (bucket m h)"
proof (induction rs arbitrary: m h)
  case Nil
  then show ?case by simp
next
  case (Cons r rs)
  obtain m1 h1 where step: "removeOld key r (m, h) = (m1, h1)"
    by (cases "removeOld key r (m, h)") auto
  from removeOld_bucket [OF Cons.prems(1) step]
  have ok: "store_ok m1 h1 n" and b: "bucket m1 h1 = remB key r (bucket m h)" by auto
  from Cons.prems(2) step have "fold (removeOld key) rs (m1, h1) = (m', h')" by simp
  from Cons.IH [OF ok this] b show ?case by simp
qed

lemma fold_addB:
  "fold (addB uri) rs B I = B I @ map (\<lambda>r. with_file r uri) (filter (\<lambda>r. w_id r = I) rs)"
  by (induction rs arbitrary: B) (auto simp: addB_def)

lemma fold_remB:
  "fold (remB key) rs B I =
     (remove_first (tagged key) ^^ length (filter (\<lambda>r. w_id r = I) rs)) (B I)"
  by (induction rs arbitrary: B) (auto simp: remB_def funpow_swap1)

lemma remove_first_none: "filter p xs = [] \<Longrightarrow> remove_first p xs = xs"
  by (induction xs) (auto simp: remove_first_simps split: if_splits)

lemma remove_first_filter_not:
  "filter (\<lambda>x. \<not> p x) (remove_first p xs) = filter (\<lambda>x. \<not> p x) xs"
  by (induction xs) (auto simp: remove_first_simps)

lemma remove_first_count:
  "length (filter p (remove_first p xs)) = length (filter p xs) - 1"
  by (induction xs) (auto simp: remove_first_simps)

lemma funpow_remove_first:
  "length (filter p xs) \<le> k \<Longrightarrow> (remove_first p ^^ k) xs = filter (\<lambda>x. \<not> p x) xs"
proof (induction k arbitrary: xs)
  case 0
  then show ?case by (induction xs) (auto split: if_splits)
next
  case (Suc k)
  have "length (filter p (remove_first p xs)) \<le> k"
    using Suc.prems by (simp add: remove_first_count)
  from Suc.IH [OF this] show ?case
    by (simp add: funpow_swap1 remove_first_filter_not)
qed

lemma without_with_file: "without_file (with_file r uri) = r"
  by (simp add: without_file_def with_file_def)

lemma tagged_with_file: "tagged D (with_file r uri) \<longleftrightarrow> uri_toString uri = D"
  by (simp add: tagged_def with_file_def)

lemma agree_replaced:
  assumes "indexes_agree bf B"
  shows "indexes_agree (bf(uri_toString uri \<mapsto> R)) (replaced uri R B)"
  unfolding indexes_agree_def
proof (intro allI)
  fix D I
  let ?key = "uri_toString uri"
  let ?new = "map (\<lambda>r. with_file r uri) (filter (\<lambda>r. w_id r = I) R)"
  show "map without_file (filter (tagged D) (replaced uri R B I)) =
        filter (\<lambda>r. w_id r = I) (file_bucket (bf(?key \<mapsto> R)) D)"
  proof (cases "D = ?key")
    case True
    have "filter (tagged D) (filter (\<lambda>c. \<not> tagged ?key c) (B I)) = []"
      using True by (simp add: filter_empty_conv)
    moreover have "filter (tagged D) ?new = ?new"
      using True by (simp add: filter_map comp_def tagged_with_file)
    ultimately show ?thesis
      using True by (simp add: replaced_def file_bucket_def comp_def without_with_file)
  next
    case False
    have "filter (tagged D) (filter (\<lambda>c. \<not> tagged ?key c) (B I)) = filter (tagged D) (B I)"
      using False by (auto simp: tagged_def intro: filter_cong)
    moreover have "filter (tagged D) ?new = []"
      using False by (auto simp: filter_empty_conv tagged_with_file)
    ultimately show ?thesis
      using False assms by (simp add: replaced_def file_bucket_def indexes_agree_def)
  qed
qed

lemma filter_not_all: "filter p xs = [] \<Longrightarrow> filter (\<lambda>x. \<not> p x) xs = xs"
  by (induction xs) (auto split: if_splits)

lemma agree_remove_all:
  assumes "indexes_agree bf B"
  shows "(case bf key of None \<Rightarrow> B | Some old \<Rightarrow> fold (remB key) old B) =
         (\<lambda>I. filter (\<lambda>c. \<not> tagged key c) (B I))"
proof (rule ext)
  fix I
  have agree: "map without_file (filter (tagged key) (B I)) =
      filter (\<lambda>r. w_id r = I) (file_bucket bf key)"
    using assms by (simp add: indexes_agree_def)
  show "(case bf key of None \<Rightarrow> B | Some old \<Rightarrow> fold (remB key) old B) I =
        filter (\<lambda>c. \<not> tagged key c) (B I)"
  proof (cases "bf key")
    case None
    with agree have "filter (tagged key) (B I) = []"
      by (simp add: file_bucket_def)
    then show ?thesis using None by (simp add: filter_not_all)
  next
    case (Some old)
    with agree have "length (filter (tagged key) (B I)) = length (filter (\<lambda>r. w_id r = I) old)"
      by (metis file_bucket_def length_map option.simps(5))
    then show ?thesis using Some
      by (simp add: fold_remB funpow_remove_first)
  qed
qed

lemma scanDocument_ok:
  assumes "store_ok m h n" and "indexes_agree bf (bucket m h)"
    and "bf (uri_toString uri) = None"
    and "scanDocument walker (uri, outcome) (bf, m, h, n) = (bf', m', h', n')"
  shows "store_ok m' h' n' \<and> indexes_agree bf' (bucket m' h') \<and>
         dom bf' \<subseteq> insert (uri_toString uri) (dom bf) \<and> (\<forall>D rs. bf' D = Some rs \<longrightarrow> rs \<noteq> [] \<or> bf D = Some rs)"
proof (cases outcome)
  case (Rejected err)
  with assms show ?thesis by (auto simp: scanDocument_def)
next
  case (Resolved document)
  let ?R = "getI18nResultsForFile walker document"
  show ?thesis
  proof (cases "?R = []")
    case True
    with Resolved assms show ?thesis by (auto simp: scanDocument_def)
  next
    case False
    with Resolved assms(4) have bf': "bf' = bf(uri_toString uri \<mapsto> ?R)"
      and f: "fold (addRecord uri) ?R (m, h, n) = (m', h', n')"
      by (auto simp: scanDocument_def Let_def)
    from fold_addRecord_bucket [OF assms(1) f]
    have ok: "store_ok m' h' n'" and b: "bucket m' h' = fold (addB uri) ?R (bucket m h)" by auto
    have "(\<lambda>I. filter (\<lambda>c. \<not> tagged (uri_toString uri) c) (bucket m h I)) = bucket m h"
      using agree_remove_all [OF assms(2), of "uri_toString uri"] assms(3) by simp
    then have "bucket m' h' = replaced uri ?R (bucket m h)"
      unfolding b replaced_def by (auto simp: fun_eq_iff fold_addB)
    with agree_replaced [OF assms(2), of uri ?R] ok False show ?thesis
      unfolding bf' by auto
  qed
qed

lemma fold_scanDocument_ok:
  "store_ok m h n \<Longrightarrow> indexes_agree bf (bucket m h) \<Longrightarrow>
   distinct (map (\<lambda>f. uri_toString (fst f)) files) \<Longrightarrow>
   (\<forall>f \<in> set files. bf (uri_toString (fst f)) = None) \<Longrightarrow>
   (\<forall>D rs. bf D = Some rs \<longrightarrow> rs \<noteq> []) \<Longrightarrow>
   fold (scanDocument walker) files (bf, m, h, n) = (bf', m', h', n') \<Longrightarrow>
   store_ok m' h' n' \<and> indexes_agree bf' (bucket m' h') \<and> (\<forall>D rs. bf' D = Some rs \<longrightarrow> rs \<noteq> [])"
proof (induction files arbitrary: bf m h n)
  case Nil
  then show ?case by simp
next
  case (Cons f files)
  obtain uri outcome where f: "f = (uri, outcome)" by (cases f)
  obtain bf1 m1 h1 n1 where step: "scanDocument walker (uri, outcome) (bf, m, h, n) = (bf1, m1, h1, n1)"
    by (cases "scanDocument walker (uri, outcome) (bf, m, h, n)") auto
  have none: "bf (uri_toString uri) = None"
    using Cons.prems(4) f by simp
  from scanDocument_ok [OF Cons.prems(1,2) none step]
  have ok: "store_ok m1 h1 n1" and agree: "indexes_agree bf1 (bucket m1 h1)"
    and dom: "dom bf1 \<subseteq> insert (uri_toString uri) (dom bf)"
    and ne: "\<forall>D rs. bf1 D = Some rs \<longrightarrow> rs \<noteq> [] \<or> bf D = Some rs"
    by auto
  have d: "distinct (map (\<lambda>f. uri_toString (fst f)) files)"
    using Cons.prems(3) by simp
  have fresh: "\<forall>g \<in> set files. bf1 (uri_toString (fst g)) = None"
  proof
    fix g assume g: "g \<in> set files"
    then have "uri_toString (fst g) \<noteq> uri_toString uri"
      using Cons.prems(3) f by (force simp: image_iff)
    moreover have "bf (uri_toString (fst g)) = None"
      using Cons.prems(4) g by simp
    ultimately show "bf1 (uri_toString (fst g)) = None"
      using dom by (meson domIff insertE subsetD)
  qed
  have ne1: "\<forall>D rs. bf1 D = Some rs \<longrightarrow> rs \<noteq> []"
    using ne Cons.prems(5) by blast
  have "fold (scanDocument walker) files (bf1, m1, h1, n1) = (bf', m', h', n')"
    using Cons.prems(6) f step by simp
  from Cons.IH [OF ok agree d fresh ne1 this] show ?case .
qed

lemma new_engine_ok: "engine_ok new_engine"
  by (simp add: engine_ok_def new_engine_def)

lemma initialize_ok: "engine_ok e \<Longrightarrow> engine_ok (initialize e)"
  by (auto simp: engine_ok_def initialize_def split: option.splits)

lemma scanFinished_ok:
  assumes "engine_ok e" and "distinct (map (\<lambda>f. uri_toString (fst f)) files)"
  shows "engine_ok (scanFinished walker files e)"
proof (cases "firstRejection files")
  case (Some err)
  then show ?thesis using assms(1)
    by (auto simp: scanFinished_def engine_ok_def split: option.splits)
next
  case None
  obtain bf m h n where f:
    "fold (scanDocument walker) files (Map.empty, Map.empty, arrays e, next_addr e) = (bf, m, h, n)"
    by (metis prod_cases4)
  have "store_ok Map.empty (arrays e) (next_addr e)"
    by (simp add: store_ok_def)
  moreover have "indexes_agree Map.empty (bucket Map.empty (arrays e))"
    by (simp add: indexes_agree_def bucket_def file_bucket_def)
  ultimately have "store_ok m h n \<and> indexes_agree bf (bucket m h)"
    using fold_scanDocument_ok [OF _ _ assms(2) _ _ f] by simp
  then show ?thesis using None f
    by (simp add: scanFinished_def engine_ok_def)
qed

lemma onDocumentSave_buckets:
  assumes "engine_ok e" and "endsWith (uri_path (doc_uri document)) ''.html''"
    and "resultsByFile e = Some bf" and "resultsById e = Some m"
  shows "\<exists>m'. resultsByFile (onDocumentSave walker document e) =
               Some (bf(uri_toString (doc_uri document) \<mapsto> getI18nResultsForFile walker document)) \<and>
             resultsById (onDocumentSave walker document e) = Some m' \<and>
             store_ok m' (arrays (onDocumentSave walker document e))
               (next_addr (onDocumentSave walker document e)) \<and>
             bucket m' (arrays (onDocumentSave walker document e)) =
               replaced (doc_uri document) (getI18nResultsForFile walker document)
                 (bucket m (arrays e))"
proof -
  let ?key = "uri_toString (doc_uri document)"
  let ?R = "getI18nResultsForFile walker document"
  from assms(1,3,4) have ok: "store_ok m (arrays e) (next_addr e)"
    and agree: "indexes_agree bf (bucket m (arrays e))"
    by (simp_all add: engine_ok_def)
  obtain m1 h1 where rem:
    "(case bf ?key of None \<Rightarrow> (m, arrays e)
      | Some oldRegistry \<Rightarrow> fold (removeOld ?key) oldRegistry (m, arrays e)) = (m1, h1)"
    by (metis surj_pair)
  have ok1: "store_ok m1 h1 (next_addr e)"
    and b1: "bucket m1 h1 = (case bf ?key of None \<Rightarrow> bucket m (arrays e)
                             | Some old \<Rightarrow> fold (remB ?key) old (bucket m (arrays e)))"
    using rem ok fold_removeOld_bucket [OF ok, of ?key _ m1 h1]
    by (auto split: option.splits)
  obtain m2 h2 n2 where add: "fold (addRecord (doc_uri document)) ?R (m1, h1, next_addr e) = (m2, h2, n2)"
    by (metis prod_cases3)
  from fold_addRecord_bucket [OF ok1 add]
  have ok2: "store_ok m2 h2 n2" and b2: "bucket m2 h2 = fold (addB (doc_uri document)) ?R (bucket m1 h1)"
    by auto
  have "bucket m2 h2 = replaced (doc_uri document) ?R (bucket m (arrays e))"
    unfolding b2 b1 agree_remove_all [OF agree] replaced_def
    by (simp add: fun_eq_iff fold_addB)
  moreover have "onDocumentSave walker document e =
      e\<lparr>resultsByFile := Some (bf(?key \<mapsto> ?R)), resultsById := Some m2, arrays := h2, next_addr := n2\<rparr>"
    using assms(2,3,4) rem add by (simp add: onDocumentSave_def Let_def)
  ultimately show ?thesis using ok2 by simp
qed

lemma onDocumentSave_ok:
  assumes "engine_ok e"
  shows "engine_ok (onDocumentSave walker document e)"
proof (cases "endsWith (uri_path (doc_uri document)) ''.html''")
  case False
  then show ?thesis using assms by (simp add: onDocumentSave_def)
next
  case True
  show ?thesis
  proof (cases "resultsByFile e")
    case None
    then show ?thesis using assms True
      by (auto simp: onDocumentSave_def engine_ok_def split: option.splits)
  next
    case (Some bf)
    then obtain m where m: "resultsById e = Some m"
      using assms by (auto simp: engine_ok_def split: option.splits)
    from onDocumentSave_buckets [OF assms True Some m, of walker]
    obtain m' where "resultsByFile (onDocumentSave walker document e) =
               Some (bf(uri_toString (doc_uri document) \<mapsto> getI18nResultsForFile walker document))"
      "resultsById (onDocumentSave walker document e) = Some m'"
      "store_ok m' (arrays (onDocumentSave walker document e))
               (next_addr (onDocumentSave walker document e))"
      "bucket m' (arrays (onDocumentSave walker document e)) =
               replaced (doc_uri document) (getI18nResultsForFile walker document)
                 (bucket m (arrays e))"
      by blast
    moreover have "indexes_agree bf (bucket m (arrays e))"
      using assms Some m by (simp add: engine_ok_def)
    ultimately show ?thesis
      using agree_replaced [of bf "bucket m (arrays e)" "doc_uri document"
          "getI18nResultsForFile walker document"]
      by (simp add: engine_ok_def)
  qed
qed

lemma fold_onDocumentSave_ok:
  "engine_ok e \<Longrightarrow> engine_ok (fold (onDocumentSave walker) saves e)"
  by (induction saves arbitrary: e) (simp_all add: onDocumentSave_ok)

lemma reachable_ok:
  "distinct (map (\<lambda>f. uri_toString (fst f)) files) \<Longrightarrow>
   engine_ok (fold (onDocumentSave walker) saves (scanFinished walker files (initialize new_engine)))"
  by (intro fold_onDocumentSave_ok scanFinished_ok initialize_ok new_engine_ok)

lemma without_file_id: "w_id (without_file c) = w_id c"
  by (simp add: without_file_def)

lemma count_list_map: "count_list (map f xs) y = length (filter (\<lambda>x. f x = y) xs)"
  by (induction xs) auto

lemma count_list_filter: "count_list (filter p xs) y = (if p y then count_list xs y else 0)"
  by (induction xs) auto

lemma engine_ok_agree:
  assumes "engine_ok e"
  shows "map without_file (filter (tagged D) (by_id e I)) = filter (\<lambda>r. w_id r = I) (by_file e D)"
proof (cases "resultsByFile e")
  case None
  then have "resultsById e = None"
    using assms by (auto simp: engine_ok_def split: option.splits)
  with None show ?thesis by (simp add: by_id_def by_file_def)
next
  case (Some bf)
  then obtain m where m: "resultsById e = Some m" and "indexes_agree bf (bucket m (arrays e))"
    using assms by (auto simp: engine_ok_def split: option.splits)
  then show ?thesis using Some by (simp add: by_id_def by_file_def indexes_agree_def)
qed

lemmas eval_defs =
  scanFinished_def scanDocument_def initialize_def new_engine_def onDocumentSave_def
  getI18nResultsForFile_def addRecord_def removeOld_def endsWith_def splice1_def
  with_file_def without_file_def occurrence_def example_walker_def
  doc_a_def doc_b_def doc_b_edited_def doc_a_emptied_def a_html_def b_html_def
  by_file_def by_id_def file_bucket_def bucket_def tagged_def file_entry_def read_by_id_def
  snapshot_def Let_def

text \<open>
  Claim C2. After the initial scan of a set of files (distinct URIs) and after any
  sequence of save updates, for every document \<open>D\<close> and identifier \<open>I\<close>: the records of
  bucket \<open>I\<close> that are tagged with \<open>D\<close> are, in order and without their tag, exactly the
  occurrences of \<open>D\<close> in the by-file view that have identifier \<open>I\<close>. So an occurrence
  appears in the by-identifier view, tagged with \<open>D\<close> and under its own identifier, as many
  times as it appears in the by-file view under \<open>D\<close> (once for an occurrence that the
  document has once), and every record of a bucket carries the bucket's identifier and
  comes from an occurrence of the by-file view under the document of its tag.
\<close>

theorem views_are_two_indexes:
  assumes "distinct (map (\<lambda>f. uri_toString (fst f)) files)"
  shows
    "(let e = fold (onDocumentSave walker) saves (scanFinished walker files (initialize new_engine))
      in map without_file (filter (\<lambda>c. uri_toString (w_file c) = D) (by_id e I)) =
           filter (\<lambda>r. w_id r = I) (by_file e D) \<and>
         length (filter (\<lambda>c. without_file c = occ \<and> uri_toString (w_file c) = D)
                   (by_id e (w_id occ))) =
           count_list (by_file e D) occ \<and>
         (\<forall>c \<in> set (by_id e I).
            w_id c = I \<and> without_file c \<in> set (by_file e (uri_toString (w_file c)))))"
proof -
  let ?e = "fold (onDocumentSave walker) saves (scanFinished walker files (initialize new_engine))"
  have ok: "engine_ok ?e"
    using assms by (rule reachable_ok)
  have agree: "map without_file (filter (\<lambda>c. uri_toString (w_file c) = D) (by_id ?e I)) =
      filter (\<lambda>r. w_id r = I) (by_file ?e D)" for D I
    using engine_ok_agree [OF ok, of D I] by (simp add: tagged_eq)
  have "length (filter (\<lambda>c. without_file c = occ \<and> uri_toString (w_file c) = D)
          (by_id ?e (w_id occ))) =
        count_list (map without_file
          (filter (\<lambda>c. uri_toString (w_file c) = D) (by_id ?e (w_id occ)))) occ"
    by (simp add: count_list_map conj_commute)
  also have "\<dots> = count_list (by_file ?e D) occ"
    by (simp add: agree count_list_filter)
  finally have count: "length (filter (\<lambda>c. without_file c = occ \<and> uri_toString (w_file c) = D)
          (by_id ?e (w_id occ))) = count_list (by_file ?e D) occ" .
  have conv: "w_id c = I \<and> without_file c \<in> set (by_file ?e (uri_toString (w_file c)))"
    if "c \<in> set (by_id ?e I)" for c
  proof -
    from that have "without_file c \<in>
        set (map without_file (filter (\<lambda>d. uri_toString (w_file d) = uri_toString (w_file c)) (by_id ?e I)))"
      by auto
    then have "without_file c \<in> set (filter (\<lambda>r. w_id r = I) (by_file ?e (uri_toString (w_file c))))"
      by (simp only: agree)
    then show ?thesis by (simp add: without_file_id)
  qed
  show ?thesis
    unfolding Let_def using agree count conv by blast
qed

theorem views_are_two_indexes_witness:
  "distinct (map (\<lambda>f. uri_toString (fst f)) [(a_html, Resolved doc_a), (b_html, Resolved doc_b)]) \<and>
   by_file (fold (onDocumentSave example_walker) [doc_b_edited]
              (scanFinished example_walker [(a_html, Resolved doc_a), (b_html, Resolved doc_b)]
                 (initialize new_engine))) ''file:///b.html'' =
     [occurrence ''welcome'' (Some ''Hi {{other}}'') 0] \<and>
   map without_file
     (filter (\<lambda>c. uri_toString (w_file c) = ''file:///b.html'')
        (by_id (fold (onDocumentSave example_walker) [doc_b_edited]
                  (scanFinished example_walker [(a_html, Resolved doc_a), (b_html, Resolved doc_b)]
                     (initialize new_engine))) ''welcome'')) =
     [occurrence ''welcome'' (Some ''Hi {{other}}'') 0]"
  using views_are_two_indexes [of "[(a_html, Resolved doc_a), (b_html, Resolved doc_b)]"
      example_walker "[doc_b_edited]" "''file:///b.html''" "''welcome''"
      "occurrence ''welcome'' (Some ''Hi {{other}}'') 0"]
  by (simp add: eval_defs)

lemma replaced_idem: "replaced uri R (replaced uri R B) = replaced uri R B"
  by (auto simp: replaced_def fun_eq_iff filter_map comp_def tagged_with_file filter_empty_conv)

lemma snapshot_bucket:
  assumes "store_ok m h n"
  shows "snapshot h m I = (if bucket m h I = [] then None else Some (bucket m h I))"
  using assms by (cases "m I") (auto simp: snapshot_def bucket_def store_ok_def)

lemma snapshot_eqI:
  assumes "store_ok m h n" and "store_ok m' h' n'" and "bucket m h = bucket m' h'"
  shows "snapshot h m = snapshot h' m'"
  using assms by (auto simp: fun_eq_iff snapshot_bucket)

text \<open>
  Claim C8. In every state reached by the initial scan of a set of files (distinct URIs)
  and any sequence of save updates, applying the save update of a document twice yields
  the same by-file view and the same contents of the by-identifier view (the same keys,
  each with the same bucket) as applying it once.
\<close>

theorem save_twice_same_contents:
  assumes "distinct (map (\<lambda>f. uri_toString (fst f)) files)"
  shows
    "(let e = fold (onDocumentSave walker) saves (scanFinished walker files (initialize new_engine));
          once = onDocumentSave walker document e;
          twice = onDocumentSave walker document once
      in resultsByFile twice = resultsByFile once \<and> by_id_contents twice = by_id_contents once)"
proof -
  let ?e = "fold (onDocumentSave walker) saves (scanFinished walker files (initialize new_engine))"
  let ?once = "onDocumentSave walker document ?e"
  let ?twice = "onDocumentSave walker document ?once"
  let ?key = "uri_toString (doc_uri document)"
  let ?R = "getI18nResultsForFile walker document"
  have ok: "engine_ok ?e"
    using assms by (rule reachable_ok)
  have ok1: "engine_ok ?once"
    using ok by (rule onDocumentSave_ok)
  have "resultsByFile ?twice = resultsByFile ?once \<and> by_id_contents ?twice = by_id_contents ?once"
  proof (cases "endsWith (uri_path (doc_uri document)) ''.html''")
    case False
    then show ?thesis by (simp add: onDocumentSave_def)
  next
    case True
    show ?thesis
    proof (cases "resultsByFile ?e")
      case None
      then have "resultsById ?e = None"
        using ok by (auto simp: engine_ok_def split: option.splits)
      with None True show ?thesis
        by (simp add: onDocumentSave_def by_id_contents_def)
    next
      case (Some bf)
      then obtain m where m: "resultsById ?e = Some m"
        using ok by (auto simp: engine_ok_def split: option.splits)
      from onDocumentSave_buckets [OF ok True Some m, of walker]
      obtain m1 where bf1: "resultsByFile ?once = Some (bf(?key \<mapsto> ?R))"
        and m1: "resultsById ?once = Some m1"
        and s1: "store_ok m1 (arrays ?once) (next_addr ?once)"
        and b1: "bucket m1 (arrays ?once) = replaced (doc_uri document) ?R (bucket m (arrays ?e))"
        by blast
      from onDocumentSave_buckets [OF ok1 True bf1 m1, of walker]
      obtain m2 where bf2: "resultsByFile ?twice = Some ((bf(?key \<mapsto> ?R))(?key \<mapsto> ?R))"
        and m2: "resultsById ?twice = Some m2"
        and s2: "store_ok m2 (arrays ?twice) (next_addr ?twice)"
        and b2: "bucket m2 (arrays ?twice) = replaced (doc_uri document) ?R (bucket m1 (arrays ?once))"
        by blast
      have "bucket m2 (arrays ?twice) = bucket m1 (arrays ?once)"
        unfolding b2 b1 by (rule replaced_idem)
      from snapshot_eqI [OF s2 s1 this] bf1 bf2 m1 m2 show ?thesis
        by (simp add: by_id_contents_def)
    qed
  qed
  then show ?thesis by (simp add: Let_def)
qed

theorem save_twice_same_contents_witness:
  "distinct (map (\<lambda>f. uri_toString (fst f)) [(a_html, Resolved doc_a), (b_html, Resolved doc_b)]) \<and>
   resultsByFile (onDocumentSave example_walker doc_b_edited (onDocumentSave example_walker doc_b_edited
      (scanFinished example_walker [(a_html, Resolved doc_a), (b_html, Resolved doc_b)]
         (initialize new_engine)))) =
   resultsByFile (onDocumentSave example_walker doc_b_edited
      (scanFinished example_walker [(a_html, Resolved doc_a), (b_html, Resolved doc_b)]
         (initialize new_engine))) \<and>
   by_id_contents (onDocumentSave example_walker doc_b_edited (onDocumentSave example_walker doc_b_edited
      (scanFinished example_walker [(a_html, Resolved doc_a), (b_html, Resolved doc_b)]
         (initialize new_engine)))) =
   by_id_contents (onDocumentSave example_walker doc_b_edited
      (scanFinished example_walker [(a_html, Resolved doc_a), (b_html, Resolved doc_b)]
         (initialize new_engine)))"
  using save_twice_same_contents [of "[(a_html, Resolved doc_a), (b_html, Resolved doc_b)]"
      example_walker "[]" doc_b_edited]
  by (simp add: Let_def a_html_def b_html_def)

text \<open>
  Claim C3. The scan stores no document with zero occurrences (lemma
  \<open>scan_keys_nonempty\<close> below), but \<^verbatim>\<open>onDocumentSave\<close> sets the key of the saved document
  whatever the extractor returned: after the scan of \<^verbatim>\<open>a.html\<close> with one occurrence, a save
  of \<^verbatim>\<open>a.html\<close> with an empty text, for which the extraction is empty, leaves the key of
  \<^verbatim>\<open>a.html\<close> in the by-file view, mapped to the empty sequence.
\<close>

theorem save_of_emptied_document_keeps_key:
  "file_entry (scanFinished example_walker [(a_html, Resolved doc_a)] (initialize new_engine))
     ''file:///a.html'' = Some [occurrence ''welcome'' (Some ''Hello {{name}}'') 0] \<and>
   getI18nResultsForFile example_walker doc_a_emptied = [] \<and>
   file_entry (onDocumentSave example_walker doc_a_emptied
       (scanFinished example_walker [(a_html, Resolved doc_a)] (initialize new_engine)))
     ''file:///a.html'' = Some []"
  by (simp add: eval_defs)

lemma scan_keys_nonempty:
  assumes "distinct (map (\<lambda>f. uri_toString (fst f)) files)"
    and "file_entry (scanFinished walker files (initialize new_engine)) D = Some rs"
  shows "rs \<noteq> []"
proof (cases "firstRejection files")
  case (Some err)
  then show ?thesis using assms(2)
    by (simp add: scanFinished_def file_entry_def initialize_def new_engine_def)
next
  case None
  obtain bf m h n where f:
    "fold (scanDocument walker) files
       (Map.empty, Map.empty, arrays (initialize new_engine), next_addr (initialize new_engine)) =
     (bf, m, h, n)"
    by (metis prod_cases4)
  have "store_ok Map.empty (arrays (initialize new_engine)) (next_addr (initialize new_engine))"
    by (simp add: store_ok_def)
  moreover have "indexes_agree Map.empty (bucket Map.empty (arrays (initialize new_engine)))"
    by (simp add: indexes_agree_def bucket_def file_bucket_def)
  ultimately have "\<forall>D rs. bf D = Some rs \<longrightarrow> rs \<noteq> []"
    using fold_scanDocument_ok [OF _ _ assms(1) _ _ f] by simp
  then show ?thesis using assms(2) None f
    by (simp add: scanFinished_def file_entry_def)
qed

text \<open>
  Claim C7. \<^verbatim>\<open>onDocumentSave\<close> copies the by-identifier map but not its bucket arrays, and
  \<^verbatim>\<open>splice\<close> and \<^verbatim>\<open>push\<close> change them in place. The view published by the scan of
  \<^verbatim>\<open>a.html\<close> and \<^verbatim>\<open>b.html\<close> holds, for \<^verbatim>\<open>welcome\<close>, the records of both files; read again
  after \<^verbatim>\<open>b.html\<close> is saved with another value, the same published view holds the new
  record of \<^verbatim>\<open>b.html\<close>: the earlier snapshot was mutated.
\<close>

theorem save_mutates_published_bucket:
  "read_by_id (scanFinished example_walker [(a_html, Resolved doc_a), (b_html, Resolved doc_b)]
                 (initialize new_engine))
     (arrays (scanFinished example_walker [(a_html, Resolved doc_a), (b_html, Resolved doc_b)]
                 (initialize new_engine)))
     ''welcome'' =
     Some [with_file (occurrence ''welcome'' (Some ''Hello {{name}}'') 0) a_html,
           with_file (occurrence ''welcome'' (Some ''Hello {{other}}'') 0) b_html] \<and>
   read_by_id (scanFinished example_walker [(a_html, Resolved doc_a), (b_html, Resolved doc_b)]
                 (initialize new_engine))
     (arrays (onDocumentSave example_walker doc_b_edited
               (scanFinished example_walker [(a_html, Resolved doc_a), (b_html, Resolved doc_b)]
                 (initialize new_engine))))
     ''welcome'' =
     Some [with_file (occurrence ''welcome'' (Some ''Hello {{name}}'') 0) a_html,
           with_file (occurrence ''welcome'' (Some ''Hi {{other}}'') 0) b_html]"
  by (simp add: eval_defs)

section \<open>Properties of the save listener\<close>





lemma fire_waiting:
  "e_state e \<noteq> Initialized \<Longrightarrow>
   fire w x e =
     e\<lparr>intervals := map (\<lambda>y. if t_id y = t_id x then y\<lparr>t_due := t_due y + 1000\<rparr> else y) (intervals e)\<rparr>"
  by (simp add: fire_def intervalCallback_def)


















section \<open>Properties of a failed scan\<close>

lemma fold_fire_waiting_frame:
  "e_state e \<noteq> Initialized \<Longrightarrow> \<exists>ts. fold (fire w) ds e = e\<lparr>intervals := ts\<rparr>"
proof (induction ds arbitrary: e)
  case Nil
  have "e = e\<lparr>intervals := intervals e\<rparr>" by simp
  then show ?case by (metis fold_simps(1))
next
  case (Cons x ds)
  let ?e1 = "fire w x e"
  have e1: "?e1 = e\<lparr>intervals :=
      map (\<lambda>y. if t_id y = t_id x then y\<lparr>t_due := t_due y + 1000\<rparr> else y) (intervals e)\<rparr>"
    using Cons.prems by (simp add: fire_waiting)
  then have "e_state ?e1 \<noteq> Initialized"
    using Cons.prems by simp
  from Cons.IH [OF this] obtain ts where ts: "fold (fire w) ds ?e1 = ?e1\<lparr>intervals := ts\<rparr>"
    by blast
  have "fold (fire w) (x # ds) e = fold (fire w) ds ?e1" by simp
  also have "\<dots> = ?e1\<lparr>intervals := ts\<rparr>" by (rule ts)
  also have "\<dots> = e\<lparr>intervals := ts\<rparr>" by (simp add: e1)
  finally show ?case by blast
qed

lemma tick_waiting_frame:
  assumes "e_state e \<noteq> Initialized"
  shows "\<exists>ts. tick w e = e\<lparr>now := now e + 1, intervals := ts\<rparr>"
proof -
  have "e_state (e\<lparr>now := now e + 1\<rparr>) \<noteq> Initialized"
    using assms by simp
  from fold_fire_waiting_frame [OF this] show ?thesis
    by (simp add: tick_def Let_def)
qed

lemma step_scan_failed:
  assumes "scan_failed e"
  shows "scan_failed (step w ev e) \<and> delivered (step w ev e) = delivered e"
proof (cases ev)
  case CallInitialize
  then show ?thesis using assms by (simp add: scan_failed_def initialize_def)
next
  case (SaveNotification doc)
  then show ?thesis using assms by (simp add: scan_failed_def onDidSaveTextDocument_def)
next
  case Millisecond
  have "e_state e \<noteq> Initialized"
    using assms by (simp add: scan_failed_def)
  from tick_waiting_frame [OF this, of w] obtain ts
    where "tick w e = e\<lparr>now := now e + 1, intervals := ts\<rparr>" by blast
  then show ?thesis using assms Millisecond by (simp add: scan_failed_def)
next
  case (ScanSettles files)
  then show ?thesis using assms by (simp add: scan_failed_def)
qed

lemma fold_step_scan_failed:
  "scan_failed e \<Longrightarrow>
   scan_failed (fold (step w) events e) \<and> delivered (fold (step w) events e) = delivered e"
proof (induction events arbitrary: e)
  case Nil
  then show ?case by simp
next
  case (Cons ev events)
  from step_scan_failed [OF Cons.prems, of w ev]
  have "scan_failed (step w ev e)" and "delivered (step w ev e) = delivered e"
    by simp_all
  with Cons.IH [of "step w ev e"] show ?case by simp
qed

lemma step_scanning:
  assumes "scanning e" and "\<not> is_ScanSettles ev"
  shows "scanning (step w ev e)"
proof (cases ev)
  case CallInitialize
  then show ?thesis using assms by (simp add: scanning_def initialize_def)
next
  case (SaveNotification doc)
  then show ?thesis using assms by (simp add: scanning_def onDidSaveTextDocument_def)
next
  case Millisecond
  have "e_state e \<noteq> Initialized"
    using assms by (simp add: scanning_def)
  from tick_waiting_frame [OF this, of w] obtain ts
    where "tick w e = e\<lparr>now := now e + 1, intervals := ts\<rparr>" by blast
  then show ?thesis using assms Millisecond by (simp add: scanning_def)
next
  case (ScanSettles files)
  then show ?thesis using assms by simp
qed

lemma fold_step_scanning:
  "scanning e \<Longrightarrow> list_all (\<lambda>ev. \<not> is_ScanSettles ev) events \<Longrightarrow>
   scanning (fold (step w) events e)"
  by (induction events arbitrary: e) (simp_all add: step_scanning)

text \<open>
  Claim C6, as stated: after a scan in which a document failed, the state of the engine is
  \<^verbatim>\<open>uninitialized\<close>. It is not: \<^verbatim>\<open>initialize\<close> has set it to \<^verbatim>\<open>initializing\<close>, and the
  \<^verbatim>\<open>catch\<close> handler only logs.
\<close>

theorem failed_scan_state_counterexample:
  "e_state (scanFinished example_walker
             [(a_html, Resolved doc_a), (b_html, Rejected ''Error: cannot open file'')]
             (initialize new_engine)) \<noteq> Uninitialized"
  by (simp add: scanFinished_def initialize_def new_engine_def)

text \<open>
  Claim C6, amended. A new engine is initialized; while its scan is pending anything may
  happen (calls of \<^verbatim>\<open>initialize\<close>, save notifications, time passing); then the scan settles
  with a document that failed. No view is published and the failure is logged with its
  reason (nothing is thrown: every step returns a state). The state of the engine stays
  \<^verbatim>\<open>initializing\<close>, and a further call of \<^verbatim>\<open>initialize\<close> changes nothing and starts no scan. So
  whatever happens afterwards, the engine stays \<^verbatim>\<open>initializing\<close>, publishes no view and
  delivers no save to \<^verbatim>\<open>onDocumentSave\<close>.
\<close>

theorem failed_scan_publishes_nothing:
  "firstRejection files = Some err \<Longrightarrow>
   list_all (\<lambda>ev. \<not> is_ScanSettles ev) before \<Longrightarrow>
   (let e = fold (step walker) (before @ [ScanSettles files]) (initialize new_engine)
    in resultsByFile e = None \<and> resultsById e = None \<and>
       console e = [Log ''[i18n-manager] initializing i18n repository'',
                    Err (''[i18n-manager]: Failed to initialize i18n repository: '' @ err)] \<and>
       e_state e = Initializing \<and>
       initialize e = e \<and>
       (\<forall>events.
          e_state (fold (step walker) events e) = Initializing \<and>
          resultsByFile (fold (step walker) events e) = None \<and>
          resultsById (fold (step walker) events e) = None \<and>
          delivered (fold (step walker) events e) = []))"
proof -
  assume r: "firstRejection files = Some err"
    and b: "list_all (\<lambda>ev. \<not> is_ScanSettles ev) before"
  let ?pending = "fold (step walker) before (initialize new_engine)"
  let ?e = "fold (step walker) (before @ [ScanSettles files]) (initialize new_engine)"
  have "scanning (initialize new_engine)"
    by (simp add: scanning_def initialize_def new_engine_def)
  then have s: "scanning ?pending"
    using b by (rule fold_step_scanning)
  then have e: "?e = ?pending
      \<lparr>console := console ?pending @
         [Err (''[i18n-manager]: Failed to initialize i18n repository: '' @ err)],
       scan_pending := False\<rparr>"
    using r by (simp add: scanning_def scanFinished_def)
  have f: "scan_failed ?e" and d: "delivered ?e = []"
    unfolding e using s by (simp_all add: scan_failed_def scanning_def)
  have "e_state (fold (step walker) events ?e) = Initializing \<and>
        resultsByFile (fold (step walker) events ?e) = None \<and>
        resultsById (fold (step walker) events ?e) = None \<and>
        delivered (fold (step walker) events ?e) = []" for events
    using fold_step_scan_failed [OF f, of walker events] d by (simp add: scan_failed_def)
  moreover have "resultsByFile ?e = None \<and> resultsById ?e = None \<and>
       console ?e = [Log ''[i18n-manager] initializing i18n repository'',
                    Err (''[i18n-manager]: Failed to initialize i18n repository: '' @ err)] \<and>
       e_state ?e = Initializing \<and> initialize ?e = ?e"
    unfolding e using s by (simp add: scanning_def initialize_def)
  ultimately show ?thesis
    unfolding Let_def by blast
qed

theorem failed_scan_publishes_nothing_witness:
  "firstRejection [(a_html, Resolved doc_a), (b_html, Rejected ''Error: cannot open file'')] =
     Some ''Error: cannot open file'' \<and>
   list_all (\<lambda>ev. \<not> is_ScanSettles ev) [SaveNotification doc_a, Millisecond] \<and>
   console (fold (step example_walker)
             ([SaveNotification doc_a, Millisecond] @
              [ScanSettles [(a_html, Resolved doc_a),
                            (b_html, Rejected ''Error: cannot open file'')]])
             (initialize new_engine)) =
     [Log ''[i18n-manager] initializing i18n repository'',
      Err ''[i18n-manager]: Failed to initialize i18n repository: Error: cannot open file''] \<and>
   e_state (fold (step example_walker)
             [CallInitialize, Millisecond, ScanSettles [(a_html, Resolved doc_a)], Millisecond]
             (fold (step example_walker)
               ([SaveNotification doc_a, Millisecond] @
                [ScanSettles [(a_html, Resolved doc_a),
                              (b_html, Rejected ''Error: cannot open file'')]])
               (initialize new_engine))) = Initializing \<and>
   delivered (fold (step example_walker)
             [CallInitialize, Millisecond, ScanSettles [(a_html, Resolved doc_a)], Millisecond]
             (fold (step example_walker)
               ([SaveNotification doc_a, Millisecond] @
                [ScanSettles [(a_html, Resolved doc_a),
                              (b_html, Rejected ''Error: cannot open file'')]])
               (initialize new_engine))) = []"
proof -
  have r: "firstRejection [(a_html, Resolved doc_a), (b_html, Rejected ''Error: cannot open file'')] =
      Some ''Error: cannot open file''"
    by simp
  have b: "list_all (\<lambda>ev. \<not> is_ScanSettles ev) [SaveNotification doc_a, Millisecond]"
    by simp
  let ?e = "fold (step example_walker)
             ([SaveNotification doc_a, Millisecond] @
              [ScanSettles [(a_html, Resolved doc_a),
                            (b_html, Rejected ''Error: cannot open file'')]])
             (initialize new_engine)"
  let ?events = "[CallInitialize, Millisecond, ScanSettles [(a_html, Resolved doc_a)], Millisecond]"
  note t = failed_scan_publishes_nothing [OF r b, where walker = example_walker, unfolded Let_def]
  from t have c: "console ?e =
      [Log ''[i18n-manager] initializing i18n repository'',
       Err (''[i18n-manager]: Failed to initialize i18n repository: '' @ ''Error: cannot open file'')]"
    by blast
  from t have "\<forall>events. e_state (fold (step example_walker) events ?e) = Initializing \<and>
      resultsByFile (fold (step example_walker) events ?e) = None \<and>
      resultsById (fold (step example_walker) events ?e) = None \<and>
      delivered (fold (step example_walker) events ?e) = []"
    by blast
  then have "e_state (fold (step example_walker) ?events ?e) = Initializing \<and>
      delivered (fold (step example_walker) ?events ?e) = []"
    by blast
  with c r b show ?thesis
    by (simp del: fold_append)
qed

end
